theory Spec2Isabelle
  imports Complex_Main
begin

section \<open>Dense matrices of the PHAST base library (matrix.c)\<close>

text \<open>
  A shallow embedding of \<^verbatim>\<open>src/lib/base/matrix.c\<close>. The C functions work on
  pointers to heap objects, so the model threads an explicit store through every
  function: a \<^verbatim>\<open>Matrix *\<close> is an index into the list of matrix objects, a
  \<^verbatim>\<open>Vector *\<close> an index into the list of vector objects. Two pointer arguments may
  therefore denote the same object, exactly as in C.

  A \<^verbatim>\<open>double\<close> is an element of an arbitrary type \<open>'a\<close> with the arithmetic
  operations the function at hand uses; results that rely on algebraic laws are stated
  for semirings (exact arithmetic), so rounding, infinities and NaN are outside the model.
  Dimensions (\<^verbatim>\<open>int\<close> in C) are natural numbers. What C leaves undefined (an access
  outside an allocated block, the use of an invalid pointer) and a failed \<^verbatim>\<open>assert\<close>
  are error values of the model.
\<close>

subsection \<open>Errors, sequencing and counted loops\<close>

datatype error =
    AssertionFailed
  | OutOfBounds
  | InvalidPointer
  | ZeroLengthArray
  | DanglingPointer
  | IndeterminatePointer

definition rbind :: "error + 'a \<Rightarrow> ('a \<Rightarrow> error + 'b) \<Rightarrow> error + 'b" where
  "rbind r f = (case r of Inl e \<Rightarrow> Inl e | Inr x \<Rightarrow> f x)"

text \<open>\<^verbatim>\<open>for (i = lo; i < hi; i++) body\<close> is \<open>for_each [lo..<hi] body\<close>: the body
  transforms the loop state, and the first error ends the loop.\<close>

fun for_each :: "nat list \<Rightarrow> (nat \<Rightarrow> 's \<Rightarrow> error + 's) \<Rightarrow> 's \<Rightarrow> error + 's" where
  "for_each [] body s = Inr s"
| "for_each (i # is) body s = rbind (body i s) (for_each is body)"

subsection \<open>Data model\<close>

text \<open>Modelled from the spec: the struct \<^verbatim>\<open>Matrix\<close> is declared in matrix.h, which is
  absent. The spec gives it "\<^verbatim>\<open>nrows\<close>, \<^verbatim>\<open>ncols\<close> and a row-major backing store of
  \<^verbatim>\<open>nrows\<close> independently allocated rows each holding \<^verbatim>\<open>ncols\<close> doubles", and
  matrix.c uses the fields \<^verbatim>\<open>m->data[i][j]\<close>, \<^verbatim>\<open>m->nrows\<close> and \<^verbatim>\<open>m->ncols\<close>.
  \<open>data\<close> is the table of row buffers as allocated; the allocated shape and the two
  fields are related by the invariant \<open>wf_mat\<close> only.\<close>

record 'a Matrix =
  data :: "'a list list"
  nrows :: nat
  ncols :: nat

text \<open>Modelled from the spec: the struct \<^verbatim>\<open>Vector\<close> is declared in vector.h, which is
  absent. The spec gives it "\<^verbatim>\<open>size\<close>, backing store of \<^verbatim>\<open>size\<close> doubles", and
  matrix.c uses \<^verbatim>\<open>v->data[i]\<close> and \<^verbatim>\<open>v->size\<close>.\<close>

record 'a Vector =
  vec_data :: "'a list"
  vec_size :: nat

record 'a store =
  mats :: "'a Matrix list"
  vecs :: "'a Vector list"

definition wf_mat :: "'a Matrix \<Rightarrow> bool" where
  "wf_mat M \<longleftrightarrow> length (data M) = nrows M \<and> list_all (\<lambda>row. length row = ncols M) (data M)"

definition wf_vec :: "'a Vector \<Rightarrow> bool" where
  "wf_vec V \<longleftrightarrow> length (vec_data V) = vec_size V"

definition valid_mat :: "'a store \<Rightarrow> nat \<Rightarrow> bool" where
  "valid_mat s p \<longleftrightarrow> p < length (mats s) \<and> wf_mat (mats s ! p)"

definition valid_vec :: "'a store \<Rightarrow> nat \<Rightarrow> bool" where
  "valid_vec s p \<longleftrightarrow> p < length (vecs s) \<and> wf_vec (vecs s ! p)"

subsection \<open>Element access\<close>

definition mat_deref :: "'a store \<Rightarrow> nat \<Rightarrow> error + 'a Matrix" where
  "mat_deref s p = (if p < length (mats s) then Inr (mats s ! p) else Inl InvalidPointer)"

definition vec_deref :: "'a store \<Rightarrow> nat \<Rightarrow> error + 'a Vector" where
  "vec_deref s p = (if p < length (vecs s) then Inr (vecs s ! p) else Inl InvalidPointer)"

text \<open>\<^verbatim>\<open>m->data[row][col]\<close> read: no bounds check in C, an error outside the
  allocated block here.\<close>

definition mat_get :: "'a store \<Rightarrow> nat \<Rightarrow> nat \<Rightarrow> nat \<Rightarrow> error + 'a" where
  "mat_get s m row col =
     rbind (mat_deref s m) (\<lambda>M.
       if row < length (data M) \<and> col < length (data M ! row)
       then Inr (data M ! row ! col) else Inl OutOfBounds)"

text \<open>\<^verbatim>\<open>m->data[row][col] = val\<close>.\<close>

definition mat_set :: "'a store \<Rightarrow> nat \<Rightarrow> nat \<Rightarrow> nat \<Rightarrow> 'a \<Rightarrow> error + 'a store" where
  "mat_set s m row col val =
     rbind (mat_deref s m) (\<lambda>M.
       if row < length (data M) \<and> col < length (data M ! row)
       then Inr (s\<lparr>mats := (mats s)[m := M\<lparr>data := (data M)[row := (data M ! row)[col := val]]\<rparr>]\<rparr>)
       else Inl OutOfBounds)"

text \<open>\<^verbatim>\<open>v->data[i]\<close> read and write.\<close>

definition vec_get :: "'a store \<Rightarrow> nat \<Rightarrow> nat \<Rightarrow> error + 'a" where
  "vec_get s v i =
     rbind (vec_deref s v) (\<lambda>V.
       if i < length (vec_data V) then Inr (vec_data V ! i) else Inl OutOfBounds)"

definition vec_set :: "'a store \<Rightarrow> nat \<Rightarrow> nat \<Rightarrow> 'a \<Rightarrow> error + 'a store" where
  "vec_set s v i val =
     rbind (vec_deref s v) (\<lambda>V.
       if i < length (vec_data V)
       then Inr (s\<lparr>vecs := (vecs s)[v := V\<lparr>vec_data := (vec_data V)[i := val]\<rparr>]\<rparr>)
       else Inl OutOfBounds)"

subsection \<open>Allocation and transposition\<close>

text \<open>\<^verbatim>\<open>mat_new\<close> allocates the row table and every row and initialises nothing: the
  contents of the new cells are whatever \<open>junk\<close> says. The new object gets the next
  unused address. The allocator \<^verbatim>\<open>smalloc\<close> (misc.c, absent) aborts the process when
  memory runs out, which is not modelled.\<close>

definition mat_new :: "(nat \<Rightarrow> nat \<Rightarrow> 'a) \<Rightarrow> 'a store \<Rightarrow> nat \<Rightarrow> nat \<Rightarrow> nat \<times> 'a store" where
  "mat_new junk s nr nc =
     (length (mats s),
      s\<lparr>mats := mats s @ [\<lparr>data = map (\<lambda>i. map (junk i) [0..<nc]) [0..<nr],
                           nrows = nr, ncols = nc\<rparr>]\<rparr>)"

definition mat_transpose :: "(nat \<Rightarrow> nat \<Rightarrow> 'a) \<Rightarrow> 'a store \<Rightarrow> nat \<Rightarrow> error + (nat \<times> 'a store)" where
  "mat_transpose junk s src =
     rbind (mat_deref s src) (\<lambda>S.
       case mat_new junk s (ncols S) (nrows S) of (retval, s0) \<Rightarrow>
         rbind (for_each [0..<nrows S] (\<lambda>i.
                  for_each [0..<ncols S] (\<lambda>j s1.
                    rbind (mat_get s1 src i j) (\<lambda>x. mat_set s1 retval j i x))) s0)
           (\<lambda>s2. Inr (retval, s2)))"

subsection \<open>Printing\<close>

text \<open>The stream is the list of what was written to it: one \<open>Printf\<close> per
  \<^verbatim>\<open>fprintf(F, formatstr, x)\<close>, with the format string used, and one \<open>Newline\<close>
  per \<^verbatim>\<open>fprintf(F, "\n")\<close>. The constant \<^verbatim>\<open>INFTY\<close> comes from misc.h and is a
  parameter.\<close>

datatype 'a out_item = Printf string 'a | Newline

definition mat_print :: "real \<Rightarrow> real store \<Rightarrow> nat \<Rightarrow> real out_item list \<Rightarrow> error + real out_item list" where
  "mat_print INFTY s m F =
     rbind (mat_deref s m) (\<lambda>M.
       rbind (for_each [0..<nrows M] (\<lambda>i.
                for_each [0..<ncols M] (\<lambda>j mn.
                  rbind (mat_get s m i j) (\<lambda>x.
                    let val = \<bar>x\<bar> in Inr (if val \<noteq> 0 \<and> val < mn then val else mn)))) INFTY)
         (\<lambda>mn.
            let formatstr = (if mn < 1 / 1000 then ''%14.6e '' else ''%11.6f '') in
            for_each [0..<nrows M] (\<lambda>i F1.
              rbind (for_each [0..<ncols M] (\<lambda>j F2.
                       rbind (mat_get s m i j) (\<lambda>x. Inr (F2 @ [Printf formatstr x]))) F1)
                (\<lambda>F3. Inr (F3 @ [Newline]))) F))"

subsection \<open>Products\<close>

definition mat_mult :: "'a::{zero,plus,times} store \<Rightarrow> nat \<Rightarrow> nat \<Rightarrow> nat \<Rightarrow> error + 'a store" where
  "mat_mult s prd m1 m2 =
     rbind (mat_deref s m1) (\<lambda>M1. rbind (mat_deref s m2) (\<lambda>M2. rbind (mat_deref s prd) (\<lambda>P.
       if \<not> (ncols M1 = nrows M2 \<and> nrows M1 = ncols M2 \<and>
              nrows P = nrows M1 \<and> ncols P = ncols M2)
       then Inl AssertionFailed
       else
         for_each [0..<nrows P] (\<lambda>i.
           for_each [0..<ncols P] (\<lambda>j s1.
             rbind (mat_set s1 prd i j 0)
               (for_each [0..<ncols M1] (\<lambda>k s2.
                  rbind (mat_get s2 prd i j) (\<lambda>acc.
                  rbind (mat_get s2 m1 i k) (\<lambda>x.
                  rbind (mat_get s2 m2 k j) (\<lambda>y.
                    mat_set s2 prd i j (acc + x * y)))))))) s)))"

definition mat_vec_mult :: "'a::{zero,plus,times} store \<Rightarrow> nat \<Rightarrow> nat \<Rightarrow> nat \<Rightarrow> error + 'a store" where
  "mat_vec_mult s prd m v =
     rbind (mat_deref s m) (\<lambda>M. rbind (vec_deref s v) (\<lambda>V. rbind (vec_deref s prd) (\<lambda>P.
       if \<not> (nrows M = vec_size V \<and> vec_size V = vec_size P)
       then Inl AssertionFailed
       else
         for_each [0..<nrows M] (\<lambda>i s1.
           rbind (vec_set s1 prd i 0)
             (for_each [0..<ncols M] (\<lambda>j s2.
                rbind (vec_get s2 prd i) (\<lambda>acc.
                rbind (mat_get s2 m i j) (\<lambda>x.
                rbind (vec_get s2 v j) (\<lambda>y.
                  vec_set s2 prd i (acc + x * y))))))) s)))"

text \<open>\<^verbatim>\<open>A = B * C * D\<close> with \<open>C\<close> diagonal, given by the vector of its diagonal.
  \<^verbatim>\<open>size\<close> is read from \<open>C\<close> before the assertion.\<close>

definition mat_mult_diag :: "'a::{zero,plus,times} store \<Rightarrow> nat \<Rightarrow> nat \<Rightarrow> nat \<Rightarrow> nat \<Rightarrow> error + 'a store" where
  "mat_mult_diag s A B C D =
     rbind (vec_deref s C) (\<lambda>Cv.
     rbind (mat_deref s A) (\<lambda>Am. rbind (mat_deref s B) (\<lambda>Bm. rbind (mat_deref s D) (\<lambda>Dm.
       let sz = vec_size Cv in
       if \<not> (nrows Am = ncols Am \<and> nrows Am = nrows Bm \<and> nrows Bm = ncols Bm \<and>
              nrows Bm = vec_size Cv \<and> vec_size Cv = nrows Dm \<and> nrows Dm = ncols Dm)
       then Inl AssertionFailed
       else
         for_each [0..<sz] (\<lambda>i.
           for_each [0..<sz] (\<lambda>j s1.
             rbind (mat_set s1 A i j 0)
               (for_each [0..<sz] (\<lambda>k s2.
                  rbind (mat_get s2 A i j) (\<lambda>acc.
                  rbind (mat_get s2 B i k) (\<lambda>x.
                  rbind (vec_get s2 C k) (\<lambda>c.
                  rbind (mat_get s2 D k j) (\<lambda>y.
                    mat_set s2 A i j (acc + x * c * y))))))))) s))))"

subsection \<open>Resizing\<close>

text \<open>Inside \<^verbatim>\<open>mat_resize\<close> the row table holds pointers that are not all valid: a
  slot is a live row buffer, a pointer whose buffer has been freed, or an indeterminate
  value in storage that was never written.\<close>

datatype 'a rowptr = Row "'a list" | Freed | Indeterminate

text \<open>Modelled from the spec: \<^verbatim>\<open>srealloc\<close> (misc.c) is absent from the sources. It has
  the semantics of \<^verbatim>\<open>realloc\<close>: the block keeps its contents up to the smaller of the
  old and the new size, and "contents of newly added capacity are
  unspecified/uninitialized", here given by \<open>fresh\<close>.\<close>

definition srealloc :: "(nat \<Rightarrow> 'c) \<Rightarrow> 'c list \<Rightarrow> nat \<Rightarrow> 'c list" where
  "srealloc fresh blk n = take n blk @ map fresh [length blk..<n]"

text \<open>\<^verbatim>\<open>free(m->data[i])\<close> and \<^verbatim>\<open>m->data[i] = srealloc(m->data[i], ...)\<close> on the
  row table. Only a live buffer can be freed or reallocated; to pass any other pointer
  to \<^verbatim>\<open>free\<close> or \<^verbatim>\<open>realloc\<close> is undefined in C. \<open>live_rows\<close> reads the table back as
  the rows of the matrix.\<close>

definition free_row :: "nat \<Rightarrow> 'a rowptr list \<Rightarrow> error + 'a rowptr list" where
  "free_row i tab =
     (if i < length tab
      then (case tab ! i of
              Row buf \<Rightarrow> Inr (tab[i := Freed])
            | Freed \<Rightarrow> Inl DanglingPointer
            | Indeterminate \<Rightarrow> Inl IndeterminatePointer)
      else Inl OutOfBounds)"

definition realloc_row :: "(nat \<Rightarrow> nat \<Rightarrow> 'a) \<Rightarrow> nat \<Rightarrow> nat \<Rightarrow> 'a rowptr list \<Rightarrow> error + 'a rowptr list" where
  "realloc_row junk nc i tab =
     (if i < length tab
      then (case tab ! i of
              Row buf \<Rightarrow> Inr (tab[i := Row (srealloc (junk i) buf nc)])
            | Freed \<Rightarrow> Inl DanglingPointer
            | Indeterminate \<Rightarrow> Inl IndeterminatePointer)
      else Inl OutOfBounds)"

fun live_rows :: "'a rowptr list \<Rightarrow> error + 'a list list" where
  "live_rows [] = Inr []"
| "live_rows (Row buf # tab) = rbind (live_rows tab) (\<lambda>rows. Inr (buf # rows))"
| "live_rows (Freed # tab) = Inl DanglingPointer"
| "live_rows (Indeterminate # tab) = Inl IndeterminatePointer"

definition mat_resize :: "(nat \<Rightarrow> nat \<Rightarrow> 'a) \<Rightarrow> 'a store \<Rightarrow> nat \<Rightarrow> nat \<Rightarrow> nat \<Rightarrow> error + 'a store" where
  "mat_resize junk s m nr nc =
     rbind (mat_deref s m) (\<lambda>M.
     rbind (for_each [nr..<nrows M] free_row (map Row (data M))) (\<lambda>tab1.
     rbind (for_each [0..<nr] (realloc_row junk nc) (srealloc (\<lambda>_. Indeterminate) tab1 nr)) (\<lambda>tab2.
     rbind (live_rows tab2) (\<lambda>rows.
       Inr (s\<lparr>mats := (mats s)[m := M\<lparr>data := rows, nrows := nr, ncols := nc\<rparr>]\<rparr>)))))"

subsection \<open>Inversion\<close>

text \<open>The LAPACK routines are external. \<open>dgetrf be n a\<close> is the call
  \<^verbatim>\<open>dgetrf_(&n, &n, a, &n, ipiv, &info)\<close> on the buffer contents \<open>a\<close>: it gives the
  buffer contents after the call, the pivots and \<^verbatim>\<open>info\<close>. \<open>dgetri be n a ipiv\<close> is
  \<^verbatim>\<open>dgetri_(&n, a, &n, ipiv, work, &lwork, &info)\<close>: the buffer contents after the call
  and \<^verbatim>\<open>info\<close>. The scratch array \<^verbatim>\<open>work\<close> is not an input of the model.\<close>

record 'a lapack =
  dgetrf :: "nat \<Rightarrow> 'a list \<Rightarrow> 'a list \<times> int list \<times> int"
  dgetri :: "nat \<Rightarrow> 'a list \<Rightarrow> int list \<Rightarrow> 'a list \<times> int"

text \<open>\<^verbatim>\<open>tmp[i][j] = val\<close> and \<^verbatim>\<open>tmp[j][i]\<close> on the local array
  \<^verbatim>\<open>double tmp[n][n]\<close>; after a LAPACK call the array is read through the flat buffer
  the call left behind.\<close>

definition tmp_set :: "'a list list \<Rightarrow> nat \<Rightarrow> nat \<Rightarrow> 'a \<Rightarrow> error + 'a list list" where
  "tmp_set tmp i j val =
     (if i < length tmp \<and> j < length (tmp ! i)
      then Inr (tmp[i := (tmp ! i)[j := val]]) else Inl OutOfBounds)"

definition buf_get :: "nat \<Rightarrow> 'a list \<Rightarrow> nat \<Rightarrow> nat \<Rightarrow> error + 'a" where
  "buf_get n buf i j =
     (if i < n \<and> j < n \<and> i * n + j < length buf then Inr (buf ! (i * n + j)) else Inl OutOfBounds)"

text \<open>Returns 0 on success, 1 on failure (the messages on \<^verbatim>\<open>stderr\<close> are not
  modelled). The variable-length arrays are declared before the assertion; an array of
  length zero is undefined in C.\<close>

definition mat_invert :: "'a lapack \<Rightarrow> (nat \<Rightarrow> nat \<Rightarrow> 'a) \<Rightarrow> 'a store \<Rightarrow> nat \<Rightarrow> nat \<Rightarrow> error + (int \<times> 'a store)" where
  "mat_invert be junk s M_inv M =
     rbind (mat_deref s M) (\<lambda>Mm.
       let n = nrows Mm in
       if n = 0 then Inl ZeroLengthArray
       else
         rbind (mat_deref s M_inv) (\<lambda>Mi.
           if \<not> (nrows Mm = ncols Mm \<and> nrows Mi = ncols Mi \<and> nrows Mm = nrows Mi)
           then Inl AssertionFailed
           else
             rbind (for_each [0..<n] (\<lambda>i.
                      for_each [0..<n] (\<lambda>j tmp.
                        rbind (mat_get s M j i) (\<lambda>x. tmp_set tmp i j x)))
                      (map (\<lambda>i. map (junk i) [0..<n]) [0..<n]))
               (\<lambda>tmp.
                  case dgetrf be n (concat tmp) of (lu, ipiv, info) \<Rightarrow>
                    if info \<noteq> 0 then Inr (1, s)
                    else
                      case dgetri be n lu ipiv of (res, info2) \<Rightarrow>
                        if info2 \<noteq> 0 then Inr (1, s)
                        else
                          rbind (for_each [0..<nrows Mm] (\<lambda>i.
                                   for_each [0..<nrows Mm] (\<lambda>j s1.
                                     rbind (buf_get n res j i) (\<lambda>x. mat_set s1 M_inv i j x))) s)
                            (\<lambda>s2. Inr (0, s2)))))"

subsection \<open>Auxiliary notions for the statements and proofs\<close>

text \<open>\<open>rect D r c\<close>: the table \<open>D\<close> has \<open>r\<close> rows of \<open>c\<close> cells.
  \<open>filled dn f old r c\<close> is the \<open>r \<times> c\<close> table that holds \<open>f a b\<close> in the cells
  already written (\<open>dn a b\<close>) and the old contents elsewhere; \<open>row_major i j\<close> and
  \<open>col_major i j\<close> are the cells written before iteration \<open>(i, j)\<close> of a loop nest that
  walks the table by rows, respectively by columns. \<open>upd_data s p D\<close> is the store \<open>s\<close>
  with the cells of matrix \<open>p\<close> replaced by \<open>D\<close>, \<open>upd_vec s p X\<close> the same for
  vector \<open>p\<close>.\<close>

definition rect :: "'a list list \<Rightarrow> nat \<Rightarrow> nat \<Rightarrow> bool" where
  "rect D r c \<longleftrightarrow> length D = r \<and> (\<forall>a<r. length (D ! a) = c)"

definition filled :: "(nat \<Rightarrow> nat \<Rightarrow> bool) \<Rightarrow> (nat \<Rightarrow> nat \<Rightarrow> 'a) \<Rightarrow> 'a list list \<Rightarrow> nat \<Rightarrow> nat \<Rightarrow> 'a list list" where
  "filled dn f old r c = map (\<lambda>a. map (\<lambda>b. if dn a b then f a b else old ! a ! b) [0..<c]) [0..<r]"

definition row_major :: "nat \<Rightarrow> nat \<Rightarrow> nat \<Rightarrow> nat \<Rightarrow> bool" where
  "row_major i j a b \<longleftrightarrow> a < i \<or> (a = i \<and> b < j)"

definition col_major :: "nat \<Rightarrow> nat \<Rightarrow> nat \<Rightarrow> nat \<Rightarrow> bool" where
  "col_major i j a b \<longleftrightarrow> b < i \<or> (b = i \<and> a < j)"

definition upd_data :: "'a store \<Rightarrow> nat \<Rightarrow> 'a list list \<Rightarrow> 'a store" where
  "upd_data s p D = s\<lparr>mats := (mats s)[p := (mats s ! p)\<lparr>data := D\<rparr>]\<rparr>"

definition upd_vec :: "'a store \<Rightarrow> nat \<Rightarrow> 'a list \<Rightarrow> 'a store" where
  "upd_vec s p X = s\<lparr>vecs := (vecs s)[p := (vecs s ! p)\<lparr>vec_data := X\<rparr>]\<rparr>"

text \<open>\<open>same_shapes s s'\<close>: the store \<open>s'\<close> has the matrices of \<open>s\<close> and vectors of
  the same sizes.\<close>

definition same_shapes :: "'a store \<Rightarrow> 'a store \<Rightarrow> bool" where
  "same_shapes s s' \<longleftrightarrow>
     mats s' = mats s \<and> length (vecs s') = length (vecs s) \<and>
     (\<forall>q < length (vecs s). length (vec_data (vecs s' ! q)) = length (vec_data (vecs s ! q)))"

text \<open>The mathematical objects the results are stated with: the transpose of a matrix
  value, the cell of a product as the code accumulates it (from zero, inner index
  ascending), and the explicit diagonal matrix built from a vector.\<close>

definition transposed :: "'a Matrix \<Rightarrow> 'a Matrix" where
  "transposed S = \<lparr>data = map (\<lambda>j. map (\<lambda>i. data S ! i ! j) [0..<nrows S]) [0..<ncols S],
                   nrows = ncols S, ncols = nrows S\<rparr>"

definition dot_acc :: "'a::{zero,plus,times} Matrix \<Rightarrow> 'a Matrix \<Rightarrow> nat \<Rightarrow> nat \<Rightarrow> 'a" where
  "dot_acc A B i j = foldl (\<lambda>acc k. acc + data A ! i ! k * data B ! k ! j) 0 [0..<ncols A]"

definition diag_matrix :: "'a::zero list \<Rightarrow> 'a Matrix" where
  "diag_matrix d =
     \<lparr>data = map (\<lambda>i. map (\<lambda>j. if i = j then d ! i else 0) [0..<length d]) [0..<length d],
      nrows = length d, ncols = length d\<rparr>"

text \<open>The LAPACK side of the statements. \<open>colmajor_read n buf i j\<close> is entry
  \<open>(i, j)\<close> of the \<open>n \<times> n\<close> matrix that the buffer \<open>buf\<close> holds in column-major
  order. A backend works \<open>in_place\<close>: the buffer it leaves has the size of the buffer
  it got. \<open>getrf_info\<close> is the status of the factorisation of a buffer,
  \<open>getri_info\<close> and \<open>getri_result\<close> are the status and the buffer that \<^verbatim>\<open>dgetri\<close>
  gives on the outcome of that factorisation.\<close>

definition colmajor_read :: "nat \<Rightarrow> 'a list \<Rightarrow> nat \<Rightarrow> nat \<Rightarrow> 'a" where
  "colmajor_read n buf i j = buf ! (j * n + i)"

definition in_place :: "'a lapack \<Rightarrow> bool" where
  "in_place be \<longleftrightarrow>
     (\<forall>n a. length a = n * n \<longrightarrow> length (fst (dgetrf be n a)) = n * n) \<and>
     (\<forall>n a ipiv. length a = n * n \<longrightarrow> length (fst (dgetri be n a ipiv)) = n * n)"

definition getrf_info :: "'a lapack \<Rightarrow> nat \<Rightarrow> 'a list \<Rightarrow> int" where
  "getrf_info be n a = snd (snd (dgetrf be n a))"

definition getri_info :: "'a lapack \<Rightarrow> nat \<Rightarrow> 'a list \<Rightarrow> int" where
  "getri_info be n a = (case dgetrf be n a of (lu, ipiv, info) \<Rightarrow> snd (dgetri be n lu ipiv))"

definition getri_result :: "'a lapack \<Rightarrow> nat \<Rightarrow> 'a list \<Rightarrow> 'a list" where
  "getri_result be n a = (case dgetrf be n a of (lu, ipiv, info) \<Rightarrow> fst (dgetri be n lu ipiv))"



text \<open>The specification of inversion, in the words of the spec: "feed the backend the
  transpose of \<open>src\<close>, and transpose the backend's result before writing into
  \<open>dest\<close>"; failure (1) when either call reports a non-zero status, and then nothing is
  written. \<open>matrix_of_buffer\<close> reads a buffer as a matrix in the library's native
  row-major order.\<close>

definition matrix_of_buffer :: "nat \<Rightarrow> 'a list \<Rightarrow> 'a Matrix" where
  "matrix_of_buffer n buf =
     \<lparr>data = map (\<lambda>i. map (\<lambda>j. buf ! (i * n + j)) [0..<n]) [0..<n], nrows = n, ncols = n\<rparr>"

definition invert_spec :: "'a lapack \<Rightarrow> 'a store \<Rightarrow> nat \<Rightarrow> nat \<Rightarrow> int \<times> 'a store" where
  "invert_spec be s dest src =
     (let n = nrows (mats s ! src);
          fed = concat (data (transposed (mats s ! src)))
      in case dgetrf be n fed of (lu, ipiv, info) \<Rightarrow>
           if info \<noteq> 0 then (1, s)
           else case dgetri be n lu ipiv of (res, info2) \<Rightarrow>
             if info2 \<noteq> 0 then (1, s)
             else (0, upd_data s dest (data (transposed (matrix_of_buffer n res)))))"

text \<open>Printing, in the words of the spec: the format is chosen from "the smallest
  nonzero absolute value present", scientific when that minimum is below \<open>1e-3\<close>, and
  the dump is every row in order, every element in the one format, a newline after each
  row. \<open>min_step\<close> is one step of the minimum search of \<^verbatim>\<open>mat_print\<close>.\<close>

definition nonzero_abs :: "real Matrix \<Rightarrow> real list" where
  "nonzero_abs M = map abs (filter (\<lambda>x. x \<noteq> 0) (concat (data M)))"

definition print_format :: "real Matrix \<Rightarrow> string" where
  "print_format M =
     (if nonzero_abs M \<noteq> [] \<and> Min (set (nonzero_abs M)) < 1 / 1000
      then ''%14.6e '' else ''%11.6f '')"

definition printed :: "string \<Rightarrow> 'a Matrix \<Rightarrow> 'a out_item list" where
  "printed fmt M = concat (map (\<lambda>row. map (Printf fmt) row @ [Newline]) (data M))"

definition min_step :: "real \<Rightarrow> real \<Rightarrow> real" where
  "min_step mn x = (let val = \<bar>x\<bar> in if val \<noteq> 0 \<and> val < mn then val else mn)"

subsection \<open>Sample inputs\<close>

text \<open>A store with three \<open>2 \<times> 2\<close> matrices (addresses 0, 1, 2), two \<open>1 \<times> 2\<close>
  matrices (addresses 3, 4) and two vectors of size 1.\<close>

definition ex_store :: "real store" where
  "ex_store =
     \<lparr>mats = [\<lparr>data = [[1, 2], [3, 4]], nrows = 2, ncols = 2\<rparr>,
              \<lparr>data = [[5, 6], [7, 8]], nrows = 2, ncols = 2\<rparr>,
              \<lparr>data = [[0, 0], [0, 0]], nrows = 2, ncols = 2\<rparr>,
              \<lparr>data = [[1, 2]], nrows = 1, ncols = 2\<rparr>,
              \<lparr>data = [[9, 9]], nrows = 1, ncols = 2\<rparr>],
      vecs = [\<lparr>vec_data = [5], vec_size = 1\<rparr>, \<lparr>vec_data = [0], vec_size = 1\<rparr>]\<rparr>"

text \<open>A stand-in for LAPACK on matrices of order 2, by the closed formula for the
  inverse on the column-major buffer \<open>[m00, m10, m01, m11]\<close>: status 2 when the
  determinant is zero, status \<open>-1\<close> (illegal argument) for any other order. And a store
  with the matrix \<open>[[4, 7], [2, 6]]\<close> at address 0 and the zero matrix at address 1.\<close>

definition sample_getrf :: "nat \<Rightarrow> 'a::field list \<Rightarrow> 'a list \<times> int list \<times> int" where
  "sample_getrf n a =
     (a, [1, 2],
      if n = 2 \<and> length a = 4 then (if a ! 0 * a ! 3 - a ! 2 * a ! 1 = 0 then 2 else 0) else - 1)"

definition sample_getri :: "nat \<Rightarrow> 'a::field list \<Rightarrow> int list \<Rightarrow> 'a list \<times> int" where
  "sample_getri n a ipiv =
     (if n = 2 \<and> length a = 4
      then (let det = a ! 0 * a ! 3 - a ! 2 * a ! 1 in
            if det = 0 then (a, 2)
            else ([a ! 3 / det, - (a ! 1) / det, - (a ! 2) / det, a ! 0 / det], 0))
      else (a, - 1))"

definition sample_lapack :: "'a::field lapack" where
  "sample_lapack = \<lparr>dgetrf = sample_getrf, dgetri = sample_getri\<rparr>"

definition inv_store :: "real store" where
  "inv_store =
     \<lparr>mats = [\<lparr>data = [[4, 7], [2, 6]], nrows = 2, ncols = 2\<rparr>,
              \<lparr>data = [[0, 0], [0, 0]], nrows = 2, ncols = 2\<rparr>],
      vecs = []\<rparr>"

text \<open>A store for the diagonal triple product: the destination at address 0, the
  factors \<open>B\<close> and \<open>D\<close> at 1 and 2, the explicit diagonal matrix of the vector
  \<open>[2, 3]\<close> at 3, and two more destinations at 4 and 5.\<close>

definition diag_store :: "real store" where
  "diag_store =
     \<lparr>mats = [\<lparr>data = [[0, 0], [0, 0]], nrows = 2, ncols = 2\<rparr>,
              \<lparr>data = [[1, 2], [3, 4]], nrows = 2, ncols = 2\<rparr>,
              \<lparr>data = [[5, 6], [7, 8]], nrows = 2, ncols = 2\<rparr>,
              \<lparr>data = [[2, 0], [0, 3]], nrows = 2, ncols = 2\<rparr>,
              \<lparr>data = [[0, 0], [0, 0]], nrows = 2, ncols = 2\<rparr>,
              \<lparr>data = [[0, 0], [0, 0]], nrows = 2, ncols = 2\<rparr>],
      vecs = [\<lparr>vec_data = [2, 3], vec_size = 2\<rparr>]\<rparr>"

text \<open>Two matrices to print: one with the element \<open>1e-4\<close>, one whose smallest
  non-zero element is \<open>1e-2\<close>.\<close>

definition print_store :: "real store" where
  "print_store =
     \<lparr>mats = [\<lparr>data = [[1 / 10000, 5], [0, - 2]], nrows = 2, ncols = 2\<rparr>,
              \<lparr>data = [[1 / 100, 5], [0, - 2]], nrows = 2, ncols = 2\<rparr>],
      vecs = []\<rparr>"


section \<open>Basic lemmas\<close>

lemma rbind_Inr [simp]: "rbind (Inr x) f = f x"
  by (simp add: rbind_def)

lemma rbind_Inl [simp]: "rbind (Inl e) f = Inl e"
  by (simp add: rbind_def)

lemma for_each_append: "for_each (xs @ ys) body s = rbind (for_each xs body s) (for_each ys body)"
  by (induction xs arbitrary: s) (auto simp: rbind_def split: sum.splits)

lemma for_each_steps:
  assumes "\<And>i. lo \<le> i \<Longrightarrow> i < hi \<Longrightarrow> body i (g i) = Inr (g (Suc i))"
    and "lo \<le> hi"
  shows "for_each [lo..<hi] body (g lo) = Inr (g hi)"
  using assms
proof (induction hi)
  case 0
  then show ?case by simp
next
  case (Suc hi)
  show ?case
  proof (cases "lo = Suc hi")
    case True
    then show ?thesis by simp
  next
    case False
    with Suc.prems have le: "lo \<le> hi" by simp
    have "for_each [lo..<hi] body (g lo) = Inr (g hi)"
      using Suc.IH Suc.prems(1) le by simp
    moreover have "body hi (g hi) = Inr (g (Suc hi))"
      using Suc.prems(1) le by simp
    ultimately show ?thesis
      using le by (simp add: for_each_append)
  qed
qed

lemma filled_length [simp]: "length (filled dn f old r c) = r"
  by (simp add: filled_def)

lemma filled_row_length [simp]: "a < r \<Longrightarrow> length (filled dn f old r c ! a) = c"
  by (simp add: filled_def)

lemma filled_nth [simp]:
  "a < r \<Longrightarrow> b < c \<Longrightarrow> filled dn f old r c ! a ! b = (if dn a b then f a b else old ! a ! b)"
  by (simp add: filled_def)

lemma rect_eqI:
  assumes "length X = r" "length Y = r"
    and "\<And>a. a < r \<Longrightarrow> length (X ! a) = c" "\<And>a. a < r \<Longrightarrow> length (Y ! a) = c"
    and "\<And>a b. a < r \<Longrightarrow> b < c \<Longrightarrow> X ! a ! b = Y ! a ! b"
  shows "X = Y"
  using assms by (simp add: list_eq_iff_nth_eq)

lemma filled_cong:
  assumes "\<And>a b. a < r \<Longrightarrow> b < c \<Longrightarrow> dn a b = dn' a b"
    and "\<And>a b. a < r \<Longrightarrow> b < c \<Longrightarrow> dn a b \<Longrightarrow> f a b = f' a b"
  shows "filled dn f old r c = filled dn' f' old r c"
  by (rule rect_eqI [of _ r _ c]) (use assms in auto)

lemma filled_none:
  assumes "length old = r" "\<And>a. a < r \<Longrightarrow> length (old ! a) = c"
  shows "filled (\<lambda>a b. False) f old r c = old"
  by (rule rect_eqI [of _ r _ c]) (use assms in auto)

lemma filled_all: "filled (\<lambda>a b. True) f old r c = map (\<lambda>a. map (f a) [0..<c]) [0..<r]"
  by (simp add: filled_def)

lemma filled_set:
  assumes "a < r" "b < c"
  shows "(filled dn f old r c)[a := (filled dn f old r c ! a)[b := v]] =
         filled (\<lambda>x y. dn x y \<or> (x = a \<and> y = b)) (\<lambda>x y. if x = a \<and> y = b then v else f x y) old r c"
  by (rule rect_eqI [of _ r _ c]) (use assms in \<open>auto simp: nth_list_update\<close>)

lemma fill_row_major:
  assumes step: "\<And>i j. i < r \<Longrightarrow> j < c \<Longrightarrow>
      body i j (st (filled (row_major i j) F old r c)) = Inr (st (filled (row_major i (Suc j)) F old r c))"
    and old: "length old = r" "\<And>a. a < r \<Longrightarrow> length (old ! a) = c"
  shows "for_each [0..<r] (\<lambda>i. for_each [0..<c] (body i)) (st old) =
         Inr (st (map (\<lambda>a. map (F a) [0..<c]) [0..<r]))"
proof -
  let ?g = "\<lambda>i. st (filled (row_major i 0) F old r c)"
  have row: "for_each [0..<c] (body i) (?g i) = Inr (?g (Suc i))" if "i < r" for i
  proof -
    have "for_each [0..<c] (body i) (st (filled (row_major i 0) F old r c)) =
          Inr (st (filled (row_major i c) F old r c))"
      by (rule for_each_steps [where g = "\<lambda>j. st (filled (row_major i j) F old r c)"])
         (use step that in auto)
    moreover have "filled (row_major i c) F old r c = filled (row_major (Suc i) 0) F old r c"
      by (rule filled_cong) (auto simp: row_major_def)
    ultimately show ?thesis by simp
  qed
  have "for_each [0..<r] (\<lambda>i. for_each [0..<c] (body i)) (?g 0) = Inr (?g r)"
    by (rule for_each_steps [where g = ?g]) (use row in auto)
  moreover have "filled (row_major 0 0) F old r c = old"
    using filled_none [OF old, of F] filled_cong [of r c "row_major 0 0" "\<lambda>a b. False" F F old]
    by (simp add: row_major_def)
  moreover have "filled (row_major r 0) F old r c = map (\<lambda>a. map (F a) [0..<c]) [0..<r]"
    using filled_all [of F old r c] filled_cong [of r c "row_major r 0" "\<lambda>a b. True" F F old]
    by (simp add: row_major_def)
  ultimately show ?thesis by simp
qed

lemma fill_col_major:
  assumes step: "\<And>i j. i < c \<Longrightarrow> j < r \<Longrightarrow>
      body i j (st (filled (col_major i j) F old r c)) = Inr (st (filled (col_major i (Suc j)) F old r c))"
    and old: "length old = r" "\<And>a. a < r \<Longrightarrow> length (old ! a) = c"
  shows "for_each [0..<c] (\<lambda>i. for_each [0..<r] (body i)) (st old) =
         Inr (st (map (\<lambda>a. map (F a) [0..<c]) [0..<r]))"
proof -
  let ?g = "\<lambda>i. st (filled (col_major i 0) F old r c)"
  have col: "for_each [0..<r] (body i) (?g i) = Inr (?g (Suc i))" if "i < c" for i
  proof -
    have "for_each [0..<r] (body i) (st (filled (col_major i 0) F old r c)) =
          Inr (st (filled (col_major i r) F old r c))"
      by (rule for_each_steps [where g = "\<lambda>j. st (filled (col_major i j) F old r c)"])
         (use step that in auto)
    moreover have "filled (col_major i r) F old r c = filled (col_major (Suc i) 0) F old r c"
      by (rule filled_cong) (auto simp: col_major_def)
    ultimately show ?thesis by simp
  qed
  have "for_each [0..<c] (\<lambda>i. for_each [0..<r] (body i)) (?g 0) = Inr (?g c)"
    by (rule for_each_steps [where g = ?g]) (use col in auto)
  moreover have "filled (col_major 0 0) F old r c = old"
    using filled_none [OF old, of F] filled_cong [of r c "col_major 0 0" "\<lambda>a b. False" F F old]
    by (simp add: col_major_def)
  moreover have "filled (col_major c 0) F old r c = map (\<lambda>a. map (F a) [0..<c]) [0..<r]"
    using filled_all [of F old r c] filled_cong [of r c "col_major c 0" "\<lambda>a b. True" F F old]
    by (simp add: col_major_def)
  ultimately show ?thesis by simp
qed

lemma wf_mat_rows: "wf_mat M \<Longrightarrow> length (data M) = nrows M"
  by (simp add: wf_mat_def)

lemma wf_mat_cols: "wf_mat M \<Longrightarrow> a < nrows M \<Longrightarrow> length (data M ! a) = ncols M"
  by (simp add: wf_mat_def list_all_length)

lemma wf_matI:
  "length (data M) = nrows M \<Longrightarrow> (\<And>a. a < nrows M \<Longrightarrow> length (data M ! a) = ncols M) \<Longrightarrow> wf_mat M"
  by (simp add: wf_mat_def list_all_length)

lemma mat_get_valid:
  "valid_mat s p \<Longrightarrow> i < nrows (mats s ! p) \<Longrightarrow> j < ncols (mats s ! p) \<Longrightarrow>
   mat_get s p i j = Inr (data (mats s ! p) ! i ! j)"
  by (simp add: mat_get_def mat_deref_def valid_mat_def wf_mat_rows wf_mat_cols)

lemma mat_transpose_exact:
  assumes v: "valid_mat s src"
  shows "mat_transpose junk s src =
         Inr (length (mats s), s\<lparr>mats := mats s @ [transposed (mats s ! src)]\<rparr>)"
proof -
  define S where "S = mats s ! src"
  define st where "st = (\<lambda>D. s\<lparr>mats := mats s @ [\<lparr>data = D, nrows = ncols S, ncols = nrows S\<rparr>]\<rparr>)"
  define old where "old = map (\<lambda>i. map (junk i) [0..<nrows S]) [0..<ncols S]"
  define F where "F = (\<lambda>a b. data S ! b ! a)"
  have src: "src < length (mats s)" and wf: "wf_mat S"
    using v by (simp_all add: valid_mat_def S_def)
  have get: "mat_get (st D) src i j = Inr (data S ! i ! j)" if "i < nrows S" "j < ncols S" for D i j
    using that src wf
    by (simp add: st_def mat_get_def mat_deref_def nth_append S_def [symmetric] wf_mat_rows wf_mat_cols)
  have set: "mat_set (st D) (length (mats s)) a b x = Inr (st (D[a := (D ! a)[b := x]]))"
    if "a < length D" "b < length (D ! a)" for D a b x
    using that by (simp add: st_def mat_set_def mat_deref_def)
  have step: "rbind (mat_get (st (filled (col_major i j) F old (ncols S) (nrows S))) src i j)
                (\<lambda>x. mat_set (st (filled (col_major i j) F old (ncols S) (nrows S))) (length (mats s)) j i x) =
              Inr (st (filled (col_major i (Suc j)) F old (ncols S) (nrows S)))"
    if "i < nrows S" "j < ncols S" for i j
  proof -
    have "(filled (col_major i j) F old (ncols S) (nrows S))
            [j := (filled (col_major i j) F old (ncols S) (nrows S) ! j)[i := data S ! i ! j]] =
          filled (col_major i (Suc j)) F old (ncols S) (nrows S)"
      unfolding filled_set [OF that(2) that(1)]
      by (rule filled_cong) (auto simp: col_major_def F_def)
    then show ?thesis
      using that by (simp add: get set)
  qed
  have nest: "for_each [0..<nrows S] (\<lambda>i. for_each [0..<ncols S] (\<lambda>j s1.
                  rbind (mat_get s1 src i j) (\<lambda>x. mat_set s1 (length (mats s)) j i x))) (st old) =
               Inr (st (map (\<lambda>a. map (F a) [0..<nrows S]) [0..<ncols S]))"
    by (rule fill_col_major [where st = st and F = F and old = old and r = "ncols S" and c = "nrows S"])
       (use step in \<open>auto simp: old_def\<close>)
  show ?thesis
    using src nest
    by (simp add: mat_transpose_def mat_new_def mat_deref_def S_def [symmetric] st_def old_def
        transposed_def F_def)
qed

lemma wf_transposed: "wf_mat (transposed S)"
  by (rule wf_matI) (simp_all add: transposed_def)

lemma transposed_twice: "wf_mat S \<Longrightarrow> transposed (transposed S) = S"
proof -
  assume wf: "wf_mat S"
  have "data (transposed (transposed S)) = data S"
    by (rule rect_eqI [of _ "nrows S" _ "ncols S"])
       (use wf in \<open>auto simp: transposed_def wf_mat_rows wf_mat_cols\<close>)
  then show ?thesis
    by (simp add: transposed_def)
qed

lemma rect_filled [simp]: "rect (filled dn f old r c) r c"
  by (simp add: rect_def)

lemma rect_data: "wf_mat M \<Longrightarrow> rect (data M) (nrows M) (ncols M)"
  by (simp add: rect_def wf_mat_rows wf_mat_cols)

lemma accumulate_fill:
  fixes z :: "'a::plus"
  assumes zero: "\<And>D i j. i < r \<Longrightarrow> j < c \<Longrightarrow> rect D r c \<Longrightarrow>
                   setz i j (st D) = Inr (st (D[i := (D ! i)[j := z]]))"
    and add: "\<And>D i j k. i < r \<Longrightarrow> j < c \<Longrightarrow> k < n \<Longrightarrow> rect D r c \<Longrightarrow>
                   inner i j k (st D) = Inr (st (D[i := (D ! i)[j := D ! i ! j + t i j k]]))"
    and old: "rect old r c"
  shows "for_each [0..<r] (\<lambda>i. for_each [0..<c] (\<lambda>j s1.
            rbind (setz i j s1) (for_each [0..<n] (inner i j)))) (st old) =
         Inr (st (map (\<lambda>i. map (\<lambda>j. foldl (\<lambda>acc k. acc + t i j k) z [0..<n]) [0..<c]) [0..<r]))"
proof -
  define acc where "acc = (\<lambda>i j m. foldl (\<lambda>acc k. acc + t i j k) z [0..<m])"
  define F where "F = (\<lambda>i j. acc i j n)"
  define cur where "cur = (\<lambda>i j v. filled (\<lambda>x y. row_major i j x y \<or> (x = i \<and> y = j))
                                (\<lambda>x y. if x = i \<and> y = j then v else F x y) old r c)"
  have acc_Suc: "acc i j (Suc m) = acc i j m + t i j m" for i j m
    by (simp add: acc_def)
  have acc_0: "acc i j 0 = z" for i j
    by (simp add: acc_def)
  have step: "rbind (setz i j (st (filled (row_major i j) F old r c))) (for_each [0..<n] (inner i j)) =
              Inr (st (filled (row_major i (Suc j)) F old r c))"
    if ij: "i < r" "j < c" for i j
  proof -
    have 1: "setz i j (st (filled (row_major i j) F old r c)) = Inr (st (cur i j (acc i j 0)))"
      using zero [OF ij, of "filled (row_major i j) F old r c"]
      by (simp add: filled_set [OF ij] cur_def acc_0)
    have 2: "inner i j k (st (cur i j (acc i j k))) = Inr (st (cur i j (acc i j (Suc k))))"
      if "k < n" for k
    proof -
      have "(cur i j (acc i j k))[i := (cur i j (acc i j k) ! i)[j := cur i j (acc i j k) ! i ! j + t i j k]] =
            cur i j (acc i j (Suc k))"
        unfolding cur_def filled_set [OF ij]
        by (rule filled_cong) (use ij in \<open>auto simp: acc_Suc\<close>)
      then show ?thesis
        using add [OF ij that, of "cur i j (acc i j k)"] by (simp add: cur_def)
    qed
    have 3: "for_each [0..<n] (inner i j) (st (cur i j (acc i j 0))) = Inr (st (cur i j (acc i j n)))"
      by (rule for_each_steps [where g = "\<lambda>k. st (cur i j (acc i j k))"]) (use 2 in auto)
    have 4: "cur i j (acc i j n) = filled (row_major i (Suc j)) F old r c"
      unfolding cur_def by (rule filled_cong) (auto simp: row_major_def F_def)
    show ?thesis
      using 1 3 4 by simp
  qed
  have "for_each [0..<r] (\<lambda>i. for_each [0..<c] (\<lambda>j s1.
            rbind (setz i j s1) (for_each [0..<n] (inner i j)))) (st old) =
        Inr (st (map (\<lambda>a. map (F a) [0..<c]) [0..<r]))"
    by (rule fill_row_major [where st = st and F = F and old = old])
       (use step old in \<open>auto simp: rect_def\<close>)
  then show ?thesis
    by (simp add: F_def acc_def)
qed

lemma upd_data_same: "p < length (mats s) \<Longrightarrow> upd_data s p (data (mats s ! p)) = s"
  by (simp add: upd_data_def)

lemma mat_set_upd:
  "p < length (mats s) \<Longrightarrow> i < length D \<Longrightarrow> j < length (D ! i) \<Longrightarrow>
   mat_set (upd_data s p D) p i j v = Inr (upd_data s p (D[i := (D ! i)[j := v]]))"
  by (simp add: mat_set_def mat_deref_def upd_data_def)

lemma mat_get_upd_same:
  "p < length (mats s) \<Longrightarrow> i < length D \<Longrightarrow> j < length (D ! i) \<Longrightarrow>
   mat_get (upd_data s p D) p i j = Inr (D ! i ! j)"
  by (simp add: mat_get_def mat_deref_def upd_data_def)

lemma mat_get_upd_other:
  "q \<noteq> p \<Longrightarrow> mat_get (upd_data s p D) q i j = mat_get s q i j"
  by (simp add: mat_get_def mat_deref_def upd_data_def)

lemma vec_get_upd: "vec_get (upd_data s p D) v k = vec_get s v k"
  by (simp add: vec_get_def vec_deref_def upd_data_def)

lemma vec_get_valid:
  "valid_vec s v \<Longrightarrow> k < vec_size (vecs s ! v) \<Longrightarrow> vec_get s v k = Inr (vec_data (vecs s ! v) ! k)"
  by (simp add: vec_get_def vec_deref_def valid_vec_def wf_vec_def)

lemma mat_mult_exact:
  fixes s :: "'a::{zero,plus,times} store"
  assumes va: "valid_mat s a" and vb: "valid_mat s b" and vp: "valid_mat s p"
    and ne: "p \<noteq> a" "p \<noteq> b"
    and sh: "ncols (mats s ! a) = nrows (mats s ! b)" "nrows (mats s ! a) = ncols (mats s ! b)"
            "nrows (mats s ! p) = nrows (mats s ! a)" "ncols (mats s ! p) = ncols (mats s ! b)"
  shows "mat_mult s p a b =
         Inr (upd_data s p (map (\<lambda>i. map (\<lambda>j. dot_acc (mats s ! a) (mats s ! b) i j)
                                  [0..<ncols (mats s ! b)]) [0..<nrows (mats s ! a)]))"
proof -
  define A where "A = mats s ! a"
  define B where "B = mats s ! b"
  define P where "P = mats s ! p"
  note defs = A_def [symmetric] B_def [symmetric] P_def [symmetric]
  have lp: "p < length (mats s)" and la: "a < length (mats s)" and lb: "b < length (mats s)"
    using va vb vp by (simp_all add: valid_mat_def)
  have zero: "mat_set (upd_data s p D) p i j 0 = Inr (upd_data s p (D[i := (D ! i)[j := 0]]))"
    if "i < nrows P" "j < ncols P" "rect D (nrows P) (ncols P)" for D i j
    using that lp by (simp add: mat_set_upd rect_def)
  have add: "rbind (mat_get (upd_data s p D) p i j) (\<lambda>acc.
             rbind (mat_get (upd_data s p D) a i k) (\<lambda>x.
             rbind (mat_get (upd_data s p D) b k j) (\<lambda>y.
               mat_set (upd_data s p D) p i j (acc + x * y)))) =
             Inr (upd_data s p (D[i := (D ! i)[j := D ! i ! j + data A ! i ! k * data B ! k ! j]]))"
    if "i < nrows P" "j < ncols P" "k < ncols A" "rect D (nrows P) (ncols P)" for D i j k
    using that lp ne va vb sh
    by (simp add: mat_get_upd_same mat_get_upd_other mat_set_upd rect_def mat_get_valid defs)
  have "for_each [0..<nrows P] (\<lambda>i. for_each [0..<ncols P] (\<lambda>j s1.
          rbind (mat_set s1 p i j 0) (for_each [0..<ncols A] (\<lambda>k s2.
             rbind (mat_get s2 p i j) (\<lambda>acc.
             rbind (mat_get s2 a i k) (\<lambda>x.
             rbind (mat_get s2 b k j) (\<lambda>y.
               mat_set s2 p i j (acc + x * y)))))))) (upd_data s p (data P)) =
        Inr (upd_data s p (map (\<lambda>i. map (\<lambda>j. foldl (\<lambda>acc k. acc + data A ! i ! k * data B ! k ! j) 0
               [0..<ncols A]) [0..<ncols P]) [0..<nrows P]))"
    by (rule accumulate_fill [where st = "upd_data s p" and z = 0
          and setz = "\<lambda>i j s1. mat_set s1 p i j 0"
          and t = "\<lambda>i j k. data A ! i ! k * data B ! k ! j"])
       (use zero add vp in \<open>auto simp: rect_data valid_mat_def P_def\<close>)
  moreover have "upd_data s p (data P) = s"
    using lp by (simp add: upd_data_same P_def)
  ultimately show ?thesis
    using lp la lb sh
    by (simp add: mat_mult_def mat_deref_def defs dot_acc_def)
qed

lemma foldl_sum:
  fixes z :: "'a::comm_monoid_add"
  shows "foldl (\<lambda>acc k. acc + g k) z [0..<n] = z + (\<Sum>k = 0..<n. g k)"
  by (induction n) (simp_all add: add.assoc)

lemma dot_acc_sum:
  fixes A :: "'a::semiring_0 Matrix"
  shows "dot_acc A B i j = (\<Sum>k = 0..<ncols A. data A ! i ! k * data B ! k ! j)"
  by (simp add: dot_acc_def foldl_sum)

lemma mats_upd_data_length [simp]: "length (mats (upd_data s p D)) = length (mats s)"
  by (simp add: upd_data_def)

lemma vecs_upd_data [simp]: "vecs (upd_data s p D) = vecs s"
  by (simp add: upd_data_def)

lemma mats_upd_data_other [simp]: "q \<noteq> p \<Longrightarrow> mats (upd_data s p D) ! q = mats s ! q"
  by (simp add: upd_data_def)

lemma mats_upd_data_same [simp]:
  "p < length (mats s) \<Longrightarrow> mats (upd_data s p D) ! p = (mats s ! p)\<lparr>data := D\<rparr>"
  by (simp add: upd_data_def)

lemma valid_upd_data_other: "q \<noteq> p \<Longrightarrow> valid_mat (upd_data s p D) q = valid_mat s q"
  by (simp add: valid_mat_def)

lemma valid_upd_data_same:
  "p < length (mats s) \<Longrightarrow> rect D (nrows (mats s ! p)) (ncols (mats s ! p)) \<Longrightarrow>
   valid_mat (upd_data s p D) p"
  by (simp add: valid_mat_def rect_def wf_mat_def list_all_length)

lemma valid_vec_upd_data [simp]: "valid_vec (upd_data s p D) v = valid_vec s v"
  by (simp add: valid_vec_def)

lemma rect_map [simp]: "rect (map (\<lambda>i. map (f i) [0..<c]) [0..<r]) r c"
  by (simp add: rect_def)

lemma mat_mult_diag_exact:
  fixes s :: "'a::{zero,plus,times} store"
  assumes vA: "valid_mat s A" and vB: "valid_mat s B" and vD: "valid_mat s D" and vC: "valid_vec s C"
    and ne: "A \<noteq> B" "A \<noteq> D"
    and sh: "nrows (mats s ! A) = n" "ncols (mats s ! A) = n" "nrows (mats s ! B) = n"
            "ncols (mats s ! B) = n" "vec_size (vecs s ! C) = n" "nrows (mats s ! D) = n"
            "ncols (mats s ! D) = n"
  shows "mat_mult_diag s A B C D =
         Inr (upd_data s A (map (\<lambda>i. map (\<lambda>j.
                foldl (\<lambda>acc k. acc + data (mats s ! B) ! i ! k * vec_data (vecs s ! C) ! k *
                                      data (mats s ! D) ! k ! j) 0 [0..<n]) [0..<n]) [0..<n]))"
proof -
  define Bm where "Bm = mats s ! B"
  define Dm where "Dm = mats s ! D"
  define Am where "Am = mats s ! A"
  define Cv where "Cv = vecs s ! C"
  note defs = Am_def [symmetric] Bm_def [symmetric] Dm_def [symmetric] Cv_def [symmetric]
  have lA: "A < length (mats s)" and lB: "B < length (mats s)" and lD: "D < length (mats s)"
    and lC: "C < length (vecs s)"
    using vA vB vD vC by (simp_all add: valid_mat_def valid_vec_def)
  have zero: "mat_set (upd_data s A X) A i j 0 = Inr (upd_data s A (X[i := (X ! i)[j := 0]]))"
    if "i < n" "j < n" "rect X n n" for X i j
    using that lA by (simp add: mat_set_upd rect_def)
  have add: "rbind (mat_get (upd_data s A X) A i j) (\<lambda>acc.
             rbind (mat_get (upd_data s A X) B i k) (\<lambda>x.
             rbind (vec_get (upd_data s A X) C k) (\<lambda>c.
             rbind (mat_get (upd_data s A X) D k j) (\<lambda>y.
               mat_set (upd_data s A X) A i j (acc + x * c * y))))) =
             Inr (upd_data s A (X[i := (X ! i)[j := X ! i ! j + data Bm ! i ! k * vec_data Cv ! k * data Dm ! k ! j]]))"
    if "i < n" "j < n" "k < n" "rect X n n" for X i j k
    using that lA ne vB vD vC sh
    by (simp add: mat_get_upd_same mat_get_upd_other mat_set_upd rect_def mat_get_valid
        vec_get_upd vec_get_valid defs)
  have "for_each [0..<n] (\<lambda>i. for_each [0..<n] (\<lambda>j s1.
          rbind (mat_set s1 A i j 0) (for_each [0..<n] (\<lambda>k s2.
             rbind (mat_get s2 A i j) (\<lambda>acc.
             rbind (mat_get s2 B i k) (\<lambda>x.
             rbind (vec_get s2 C k) (\<lambda>c.
             rbind (mat_get s2 D k j) (\<lambda>y.
               mat_set s2 A i j (acc + x * c * y))))))))) (upd_data s A (data Am)) =
        Inr (upd_data s A (map (\<lambda>i. map (\<lambda>j.
               foldl (\<lambda>acc k. acc + data Bm ! i ! k * vec_data Cv ! k * data Dm ! k ! j) 0
               [0..<n]) [0..<n]) [0..<n]))"
    by (rule accumulate_fill [where st = "upd_data s A" and z = 0
          and setz = "\<lambda>i j s1. mat_set s1 A i j 0"
          and t = "\<lambda>i j k. data Bm ! i ! k * vec_data Cv ! k * data Dm ! k ! j"])
       (use zero add vA sh rect_data [of Am] in \<open>auto simp: valid_mat_def Am_def\<close>)
  moreover have "upd_data s A (data Am) = s"
    using lA by (simp add: upd_data_same Am_def)
  ultimately show ?thesis
    using lA lB lD lC sh
    by (simp add: mat_mult_diag_def mat_deref_def vec_deref_def defs)
qed

lemma ex_store_valid:
  "valid_mat ex_store 0" "valid_mat ex_store 1" "valid_mat ex_store 2"
  "valid_mat ex_store 3" "valid_mat ex_store 4"
  by (simp_all add: valid_mat_def wf_mat_def ex_store_def)

section \<open>Transposition\<close>

text \<open>
  Claim C5. For every matrix \<open>M\<close> of any shape, \<^verbatim>\<open>mat_transpose\<close> returns a new
  matrix (a fresh address; every object that existed before is untouched) with
  \<open>ncols M\<close> rows and \<open>nrows M\<close> columns whose entry \<open>[j][i]\<close> is \<open>M[i][j]\<close>, and
  transposing the result again gives a matrix equal to \<open>M\<close> in shape and in every
  element. The contents of freshly allocated storage (\<open>junk\<close>, \<open>junk'\<close>) are arbitrary.
\<close>

theorem mat_transpose_involution:
  assumes "valid_mat s src"
  shows "\<exists>t s1 tt s2.
           mat_transpose junk s src = Inr (t, s1) \<and>
           t = length (mats s) \<and> length (mats s1) = Suc (length (mats s)) \<and>
           (\<forall>p < length (mats s). mats s1 ! p = mats s ! p) \<and>
           valid_mat s1 t \<and>
           nrows (mats s1 ! t) = ncols (mats s ! src) \<and>
           ncols (mats s1 ! t) = nrows (mats s ! src) \<and>
           (\<forall>i < nrows (mats s ! src). \<forall>j < ncols (mats s ! src).
              data (mats s1 ! t) ! j ! i = data (mats s ! src) ! i ! j) \<and>
           mat_transpose junk' s1 t = Inr (tt, s2) \<and>
           mats s2 ! tt = mats s ! src"
proof -
  define S where "S = mats s ! src"
  define s1 where "s1 = s\<lparr>mats := mats s @ [transposed S]\<rparr>"
  have wf: "wf_mat S" using assms by (simp add: valid_mat_def S_def)
  have 1: "mat_transpose junk s src = Inr (length (mats s), s1)"
    using mat_transpose_exact [OF assms] by (simp add: s1_def S_def)
  have v1: "valid_mat s1 (length (mats s))"
    by (simp add: valid_mat_def s1_def wf_transposed)
  have 2: "mat_transpose junk' s1 (length (mats s)) =
           Inr (Suc (length (mats s)), s1\<lparr>mats := mats s1 @ [S]\<rparr>)"
    using mat_transpose_exact [OF v1, of junk'] wf by (simp add: s1_def transposed_twice)
  have cells: "\<forall>i < nrows S. \<forall>j < ncols S. data (mats s1 ! length (mats s)) ! j ! i = data S ! i ! j"
    by (simp add: s1_def transposed_def)
  show ?thesis
    using 1 2 v1 cells
    by (simp add: S_def [symmetric] s1_def nth_append transposed_def)
qed

theorem mat_transpose_involution_witness:
  "valid_mat ex_store 3 \<and>
   (\<exists>t s1 tt s2.
      mat_transpose (\<lambda>i j. 0) ex_store 3 = Inr (t, s1) \<and> t = 5 \<and>
      data (mats s1 ! t) = [[1], [2]] \<and> nrows (mats s1 ! t) = 2 \<and> ncols (mats s1 ! t) = 1 \<and>
      mat_transpose (\<lambda>i j. 0) s1 t = Inr (tt, s2) \<and> mats s2 ! tt = mats ex_store ! 3)"
proof -
  obtain t s1 tt s2 where
    1: "mat_transpose (\<lambda>i j. 0) ex_store 3 = Inr (t, s1)" and
    2: "t = length (mats ex_store)" and
    3: "valid_mat s1 t" and
    4: "nrows (mats s1 ! t) = ncols (mats ex_store ! 3)" "ncols (mats s1 ! t) = nrows (mats ex_store ! 3)" and
    5: "\<forall>i < nrows (mats ex_store ! 3). \<forall>j < ncols (mats ex_store ! 3).
              data (mats s1 ! t) ! j ! i = data (mats ex_store ! 3) ! i ! j" and
    6: "mat_transpose (\<lambda>i j. 0) s1 t = Inr (tt, s2)" "mats s2 ! tt = mats ex_store ! 3"
    using mat_transpose_involution [OF ex_store_valid(4), of "\<lambda>i j. 0" "\<lambda>i j. 0"] by blast
  have "data (mats s1 ! t) = [[1], [2]]"
    by (rule rect_eqI [of _ 2 _ 1])
       (use 3 4 5 in \<open>auto simp: valid_mat_def wf_mat_rows wf_mat_cols ex_store_def less_Suc_eq numeral_2_eq_2\<close>)
  then show ?thesis
    using 1 2 4 6 ex_store_valid(4) by (simp add: ex_store_def)
qed

section \<open>Matrix product\<close>

text \<open>
  Claim C3, as amended. For matrices \<open>a\<close>, \<open>b\<close> with \<open>ncols a = nrows b\<close> and a
  destination \<open>p\<close> of shape \<open>nrows a \<times> ncols b\<close> that is an object different from
  \<open>a\<close> and \<open>b\<close>: \<^verbatim>\<open>mat_mult\<close> passes its assertion exactly when also
  \<open>nrows a = ncols b\<close>, and fails it otherwise. When it passes, it leaves in every cell
  \<open>[i][j]\<close> of \<open>p\<close> the value accumulated from zero over \<open>k\<close> ascending, which is
  \<open>\<Sum>k. a[i][k] * b[k][j]\<close>, and changes nothing else in the store.
\<close>

theorem mat_mult_square_product:
  fixes s :: "'a::semiring_0 store"
  assumes "valid_mat s a" and "valid_mat s b" and "valid_mat s p"
    and "p \<noteq> a" and "p \<noteq> b"
    and "ncols (mats s ! a) = nrows (mats s ! b)"
    and "nrows (mats s ! p) = nrows (mats s ! a)"
    and "ncols (mats s ! p) = ncols (mats s ! b)"
  shows "(nrows (mats s ! a) \<noteq> ncols (mats s ! b) \<longrightarrow> mat_mult s p a b = Inl AssertionFailed) \<and>
         (nrows (mats s ! a) = ncols (mats s ! b) \<longrightarrow>
           (\<exists>s'. mat_mult s p a b = Inr s' \<and>
              valid_mat s' p \<and>
              nrows (mats s' ! p) = nrows (mats s ! a) \<and>
              ncols (mats s' ! p) = ncols (mats s ! b) \<and>
              (\<forall>i < nrows (mats s ! a). \<forall>j < ncols (mats s ! b).
                 data (mats s' ! p) ! i ! j =
                   foldl (\<lambda>acc k. acc + data (mats s ! a) ! i ! k * data (mats s ! b) ! k ! j) 0
                     [0..<ncols (mats s ! a)] \<and>
                 data (mats s' ! p) ! i ! j =
                   (\<Sum>k = 0..<ncols (mats s ! a).
                      data (mats s ! a) ! i ! k * data (mats s ! b) ! k ! j)) \<and>
              (\<forall>q. q \<noteq> p \<longrightarrow> mats s' ! q = mats s ! q) \<and>
              length (mats s') = length (mats s) \<and> vecs s' = vecs s))"
proof (intro conjI impI)
  assume "nrows (mats s ! a) \<noteq> ncols (mats s ! b)"
  then show "mat_mult s p a b = Inl AssertionFailed"
    using assms(1-3) by (simp add: mat_mult_def mat_deref_def valid_mat_def)
next
  assume sq: "nrows (mats s ! a) = ncols (mats s ! b)"
  have lp: "p < length (mats s)"
    using assms(3) by (simp add: valid_mat_def)
  have "rect (map (\<lambda>i. map (\<lambda>j. dot_acc (mats s ! a) (mats s ! b) i j)
                [0..<ncols (mats s ! b)]) [0..<nrows (mats s ! a)])
          (nrows (mats s ! p)) (ncols (mats s ! p))"
    using assms by simp
  then have "valid_mat (upd_data s p (map (\<lambda>i. map (\<lambda>j. dot_acc (mats s ! a) (mats s ! b) i j)
                [0..<ncols (mats s ! b)]) [0..<nrows (mats s ! a)])) p"
    using lp by (rule valid_upd_data_same [rotated])
  then show "\<exists>s'. mat_mult s p a b = Inr s' \<and>
              valid_mat s' p \<and>
              nrows (mats s' ! p) = nrows (mats s ! a) \<and>
              ncols (mats s' ! p) = ncols (mats s ! b) \<and>
              (\<forall>i < nrows (mats s ! a). \<forall>j < ncols (mats s ! b).
                 data (mats s' ! p) ! i ! j =
                   foldl (\<lambda>acc k. acc + data (mats s ! a) ! i ! k * data (mats s ! b) ! k ! j) 0
                     [0..<ncols (mats s ! a)] \<and>
                 data (mats s' ! p) ! i ! j =
                   (\<Sum>k = 0..<ncols (mats s ! a).
                      data (mats s ! a) ! i ! k * data (mats s ! b) ! k ! j)) \<and>
              (\<forall>q. q \<noteq> p \<longrightarrow> mats s' ! q = mats s ! q) \<and>
              length (mats s') = length (mats s) \<and> vecs s' = vecs s"
    using mat_mult_exact [OF assms(1-6) sq assms(7,8)] lp assms(6-8) sq
    by (simp add: dot_acc_def foldl_sum)
qed

theorem mat_mult_square_product_witness:
  "valid_mat ex_store 0 \<and> valid_mat ex_store 1 \<and> valid_mat ex_store 2 \<and>
   ncols (mats ex_store ! 0) = nrows (mats ex_store ! 1) \<and>
   nrows (mats ex_store ! 0) = ncols (mats ex_store ! 1) \<and>
   nrows (mats ex_store ! 2) = nrows (mats ex_store ! 0) \<and>
   ncols (mats ex_store ! 2) = ncols (mats ex_store ! 1) \<and>
   (\<exists>s'. mat_mult ex_store 2 0 1 = Inr s' \<and>
         data (mats s' ! 2) ! 0 ! 0 = 19 \<and> data (mats s' ! 2) ! 0 ! 1 = 22 \<and>
         data (mats s' ! 2) ! 1 ! 0 = 43 \<and> data (mats s' ! 2) ! 1 ! 1 = 50 \<and>
         mats s' ! 0 = mats ex_store ! 0) \<and>
   valid_mat ex_store 3 \<and> valid_mat ex_store 4 \<and>
   ncols (mats ex_store ! 3) = nrows (mats ex_store ! 1) \<and>
   nrows (mats ex_store ! 3) \<noteq> ncols (mats ex_store ! 1) \<and>
   nrows (mats ex_store ! 4) = nrows (mats ex_store ! 3) \<and>
   ncols (mats ex_store ! 4) = ncols (mats ex_store ! 1) \<and>
   mat_mult ex_store 4 3 1 = Inl AssertionFailed"
proof -
  have sh: "ncols (mats ex_store ! 0) = nrows (mats ex_store ! 1)"
    "nrows (mats ex_store ! 2) = nrows (mats ex_store ! 0)"
    "ncols (mats ex_store ! 2) = ncols (mats ex_store ! 1)"
    and sq: "nrows (mats ex_store ! 0) = ncols (mats ex_store ! 1)"
    by (simp_all add: ex_store_def)
  have ne: "(2::nat) \<noteq> 0" "(2::nat) \<noteq> 1" by simp_all
  obtain s' where r: "mat_mult ex_store 2 0 1 = Inr s'"
    and cells: "\<forall>i < nrows (mats ex_store ! 0). \<forall>j < ncols (mats ex_store ! 1).
        data (mats s' ! 2) ! i ! j =
          foldl (\<lambda>acc k. acc + data (mats ex_store ! 0) ! i ! k * data (mats ex_store ! 1) ! k ! j) 0
            [0..<ncols (mats ex_store ! 0)] \<and>
        data (mats s' ! 2) ! i ! j =
          (\<Sum>k = 0..<ncols (mats ex_store ! 0). data (mats ex_store ! 0) ! i ! k * data (mats ex_store ! 1) ! k ! j)"
    and frame: "\<forall>q. q \<noteq> 2 \<longrightarrow> mats s' ! q = mats ex_store ! q"
    using mat_mult_square_product [OF ex_store_valid(1,2,3) ne sh] sq by blast
  have c: "data (mats s' ! 2) ! i ! j =
          foldl (\<lambda>acc k. acc + data (mats ex_store ! 0) ! i ! k * data (mats ex_store ! 1) ! k ! j) 0 [0..<2]"
    if "i < 2" "j < 2" for i j
    using cells that by (simp add: ex_store_def)
  have vals: "data (mats s' ! 2) ! 0 ! 0 = 19" "data (mats s' ! 2) ! 0 ! 1 = 22"
    "data (mats s' ! 2) ! 1 ! 0 = 43" "data (mats s' ! 2) ! 1 ! 1 = 50"
    by (simp_all add: c ex_store_def upt_rec)
  have sh2: "ncols (mats ex_store ! 3) = nrows (mats ex_store ! 1)"
    "nrows (mats ex_store ! 4) = nrows (mats ex_store ! 3)"
    "ncols (mats ex_store ! 4) = ncols (mats ex_store ! 1)"
    and nsq: "nrows (mats ex_store ! 3) \<noteq> ncols (mats ex_store ! 1)"
    by (simp_all add: ex_store_def)
  have ne2: "(4::nat) \<noteq> 3" "(4::nat) \<noteq> 1" by simp_all
  have fail: "mat_mult ex_store 4 3 1 = Inl AssertionFailed"
    using mat_mult_square_product [OF ex_store_valid(4,2,5) ne2 sh2] nsq by blast
  show ?thesis
    using r frame sh sq vals sh2 nsq fail ex_store_valid by simp
qed

text \<open>
  Claim C3 as stated fails. The assertion of \<^verbatim>\<open>mat_mult\<close> also demands
  \<open>nrows a = ncols b\<close>: a \<open>1 \<times> 2\<close> matrix times a \<open>2 \<times> 2\<close> matrix into a
  \<open>1 \<times> 2\<close> destination meets the stated preconditions and is rejected. And the
  destination may not be one of the factors: with \<open>p = a\<close> the cell \<open>[0][0]\<close> ends as
  14, not as \<open>1 * 5 + 2 * 7 = 19\<close>.
\<close>

theorem mat_mult_shape_counterexample:
  "valid_mat ex_store 3 \<and> valid_mat ex_store 1 \<and> valid_mat ex_store 4 \<and>
   ncols (mats ex_store ! 3) = nrows (mats ex_store ! 1) \<and>
   nrows (mats ex_store ! 4) = nrows (mats ex_store ! 3) \<and>
   ncols (mats ex_store ! 4) = ncols (mats ex_store ! 1) \<and>
   mat_mult ex_store 4 3 1 = Inl AssertionFailed \<and>
   mat_mult ex_store 0 0 1 =
     Inr (ex_store\<lparr>mats := (mats ex_store)
            [0 := \<lparr>data = [[14, 756], [28, 1512]], nrows = 2, ncols = 2\<rparr>]\<rparr>) \<and>
   data (mats ex_store ! 0) ! 0 ! 0 * data (mats ex_store ! 1) ! 0 ! 0 +
   data (mats ex_store ! 0) ! 0 ! 1 * data (mats ex_store ! 1) ! 1 ! 0 = 19"
  by (simp add: ex_store_def mat_mult_def mat_deref_def mat_get_def mat_set_def
      valid_mat_def wf_mat_def upt_rec)

section \<open>Diagonal triple product\<close>

lemma diag_matrix_wf: "wf_mat (diag_matrix d)"
  by (rule wf_matI) (simp_all add: diag_matrix_def)

lemma dot_acc_diag:
  fixes Bm :: "'a::semiring_0 Matrix"
  assumes "ncols Bm = length d" "k < length d"
  shows "dot_acc Bm (diag_matrix d) i k = data Bm ! i ! k * d ! k"
proof -
  have "dot_acc Bm (diag_matrix d) i k =
        (\<Sum>l = 0..<length d. data Bm ! i ! l * (if l = k then d ! l else 0))"
    unfolding dot_acc_sum using assms
    by (intro sum.cong) (auto simp: diag_matrix_def)
  also have "\<dots> = (\<Sum>l = 0..<length d. if l = k then data Bm ! i ! k * d ! k else 0)"
    by (intro sum.cong) auto
  also have "\<dots> = data Bm ! i ! k * d ! k"
    using assms by simp
  finally show ?thesis .
qed

text \<open>
  Claim C4, as amended. For square matrices \<open>B\<close> and \<open>D\<close> of order \<open>n\<close>, a vector
  \<open>C\<close> of size \<open>n\<close> and a destination \<open>A\<close> of order \<open>n\<close> that is an object other
  than \<open>B\<close> and other than \<open>D\<close>, \<^verbatim>\<open>mat_mult_diag\<close> leaves
  \<open>A[i][j] = \<Sum>k. B[i][k] * C[k] * D[k][j]\<close>. This is, cell for cell, what two calls
  of \<^verbatim>\<open>mat_mult\<close> compute from the explicit diagonal matrix \<open>E = diag_matrix C\<close>:
  first \<open>T = B * E\<close>, then \<open>R = T * D\<close>, with \<open>T\<close> and \<open>R\<close> destinations of order
  \<open>n\<close> that alias none of their factors. Elements are taken in a semiring, that is,
  with exact arithmetic.
\<close>

theorem mat_mult_diag_triple_product:
  fixes s :: "'a::semiring_0 store"
  assumes vA: "valid_mat s A" and vB: "valid_mat s B" and vD: "valid_mat s D"
    and vC: "valid_vec s C"
    and vT: "valid_mat s T" and vR: "valid_mat s R"
    and vE: "E < length (mats s)" and E: "mats s ! E = diag_matrix (vec_data (vecs s ! C))"
    and shA: "nrows (mats s ! A) = n" "ncols (mats s ! A) = n"
    and shB: "nrows (mats s ! B) = n" "ncols (mats s ! B) = n"
    and shC: "vec_size (vecs s ! C) = n"
    and shD: "nrows (mats s ! D) = n" "ncols (mats s ! D) = n"
    and shT: "nrows (mats s ! T) = n" "ncols (mats s ! T) = n"
    and shR: "nrows (mats s ! R) = n" "ncols (mats s ! R) = n"
    and neA: "A \<noteq> B" "A \<noteq> D"
    and neT: "T \<noteq> B" "T \<noteq> E" "T \<noteq> D"
    and neR: "R \<noteq> T" "R \<noteq> D"
  shows "\<exists>s1 s2 s3.
           mat_mult_diag s A B C D = Inr s1 \<and>
           (\<forall>i<n. \<forall>j<n. data (mats s1 ! A) ! i ! j =
              (\<Sum>k = 0..<n. data (mats s ! B) ! i ! k * vec_data (vecs s ! C) ! k *
                             data (mats s ! D) ! k ! j)) \<and>
           mat_mult s T B E = Inr s2 \<and> mat_mult s2 R T D = Inr s3 \<and>
           data (mats s3 ! R) = data (mats s1 ! A)"
proof -
  define Bm where "Bm = mats s ! B"
  define Dm where "Dm = mats s ! D"
  define d where "d = vec_data (vecs s ! C)"
  define Em where "Em = diag_matrix d"
  define cell where "cell = (\<lambda>i j. \<Sum>k = 0..<n. data Bm ! i ! k * d ! k * data Dm ! k ! j)"
  define X where "X = map (\<lambda>i. map (\<lambda>j. dot_acc Bm Em i j) [0..<n]) [0..<n]"
  define s2 where "s2 = upd_data s T X"
  define Y where "Y = map (\<lambda>i. map (\<lambda>j. dot_acc (mats s2 ! T) (mats s2 ! D) i j) [0..<n]) [0..<n]"
  have lA: "A < length (mats s)" and lT: "T < length (mats s)" and lR: "R < length (mats s)"
    using vA vT vR by (simp_all add: valid_mat_def)
  have ld: "length d = n"
    using vC shC by (simp add: valid_vec_def wf_vec_def d_def)
  have vE': "valid_mat s E"
    using vE E diag_matrix_wf by (simp add: valid_mat_def)
  have shE: "nrows (mats s ! E) = n" "ncols (mats s ! E) = n"
    using E ld by (simp_all add: diag_matrix_def d_def)
  \<comment> \<open>the triple product\<close>
  have 1: "mat_mult_diag s A B C D =
           Inr (upd_data s A (map (\<lambda>i. map (\<lambda>j.
              foldl (\<lambda>acc k. acc + data Bm ! i ! k * d ! k * data Dm ! k ! j) 0 [0..<n]) [0..<n]) [0..<n]))"
    using mat_mult_diag_exact [OF vA vB vD vC neA shA shB shC shD]
    by (simp add: Bm_def Dm_def d_def)
  have c1: "map (\<lambda>i. map (\<lambda>j.
              foldl (\<lambda>acc k. acc + data Bm ! i ! k * d ! k * data Dm ! k ! j) 0 [0..<n]) [0..<n]) [0..<n] =
            map (\<lambda>i. map (cell i) [0..<n]) [0..<n]"
    by (simp add: foldl_sum cell_def)
  \<comment> \<open>the first product, into \<open>T\<close>\<close>
  have 2: "mat_mult s T B E = Inr s2"
    using mat_mult_exact [OF vB vE' vT neT(1,2)] shB shE shT
    by (simp add: s2_def X_def Bm_def Em_def E d_def)
  have vT2: "valid_mat s2 T"
    unfolding s2_def using lT shT by (intro valid_upd_data_same) (simp_all add: X_def)
  have vD2: "valid_mat s2 D" and vR2: "valid_mat s2 R"
    using vD vR neT neR by (simp_all add: s2_def valid_upd_data_other)
  have m2: "mats s2 ! D = Dm" "nrows (mats s2 ! T) = n" "ncols (mats s2 ! T) = n"
    "nrows (mats s2 ! R) = n" "ncols (mats s2 ! R) = n" "data (mats s2 ! T) = X"
    using neT neR lT shT shR by (simp_all add: s2_def Dm_def)
  \<comment> \<open>the second product, into \<open>R\<close>\<close>
  have 3: "mat_mult s2 R T D = Inr (upd_data s2 R Y)"
    using mat_mult_exact [OF vT2 vD2 vR2 neR] m2 shD
    by (simp add: Y_def Dm_def [symmetric])
  have Xc: "X ! i ! k = data Bm ! i ! k * d ! k" if "i < n" "k < n" for i k
    using that dot_acc_diag [of Bm d k i] shB ld by (simp add: X_def Em_def Bm_def)
  have Yc: "Y = map (\<lambda>i. map (cell i) [0..<n]) [0..<n]"
  proof (rule rect_eqI [of _ n _ n])
    fix i j assume ij: "i < n" "j < n"
    have "dot_acc (mats s2 ! T) (mats s2 ! D) i j =
          (\<Sum>k = 0..<n. X ! i ! k * data Dm ! k ! j)"
      by (simp add: dot_acc_sum m2)
    also have "\<dots> = cell i j"
      unfolding cell_def using ij by (intro sum.cong) (simp_all add: Xc)
    finally show "Y ! i ! j = map (\<lambda>i. map (cell i) [0..<n]) [0..<n] ! i ! j"
      using ij by (simp add: Y_def)
  qed (simp_all add: Y_def)
  have lR2: "R < length (mats s2)" using lR by (simp add: s2_def)
  show ?thesis
    using 1 2 3 lA lR2 c1 Yc
    by (simp add: cell_def Bm_def Dm_def d_def)
qed

theorem mat_mult_diag_triple_product_witness:
  "valid_mat diag_store 0 \<and> valid_mat diag_store 1 \<and> valid_mat diag_store 2 \<and>
   valid_vec diag_store 0 \<and> valid_mat diag_store 4 \<and> valid_mat diag_store 5 \<and>
   mats diag_store ! 3 = diag_matrix (vec_data (vecs diag_store ! 0)) \<and>
   nrows (mats diag_store ! 1) = 2 \<and> ncols (mats diag_store ! 1) = 2 \<and>
   vec_size (vecs diag_store ! 0) = 2 \<and>
   nrows (mats diag_store ! 2) = 2 \<and> ncols (mats diag_store ! 2) = 2 \<and>
   (\<exists>s1 s2 s3.
      mat_mult_diag diag_store 0 1 0 2 = Inr s1 \<and>
      data (mats s1 ! 0) ! 0 ! 0 = 52 \<and> data (mats s1 ! 0) ! 0 ! 1 = 60 \<and>
      data (mats s1 ! 0) ! 1 ! 0 = 114 \<and> data (mats s1 ! 0) ! 1 ! 1 = 132 \<and>
      mat_mult diag_store 4 1 3 = Inr s2 \<and> mat_mult s2 5 4 2 = Inr s3 \<and>
      data (mats s3 ! 5) = data (mats s1 ! 0))"
proof -
  have v: "valid_mat diag_store 0" "valid_mat diag_store 1" "valid_mat diag_store 2"
    "valid_vec diag_store 0" "valid_mat diag_store 4" "valid_mat diag_store 5"
    by (simp_all add: valid_mat_def valid_vec_def wf_mat_def wf_vec_def diag_store_def)
  have E: "3 < length (mats diag_store)"
    "mats diag_store ! 3 = diag_matrix (vec_data (vecs diag_store ! 0))"
    by (simp_all add: diag_store_def diag_matrix_def upt_rec)
  have sh: "nrows (mats diag_store ! 0) = 2" "ncols (mats diag_store ! 0) = 2"
    "nrows (mats diag_store ! 1) = 2" "ncols (mats diag_store ! 1) = 2"
    "vec_size (vecs diag_store ! 0) = 2"
    "nrows (mats diag_store ! 2) = 2" "ncols (mats diag_store ! 2) = 2"
    "nrows (mats diag_store ! 4) = 2" "ncols (mats diag_store ! 4) = 2"
    "nrows (mats diag_store ! 5) = 2" "ncols (mats diag_store ! 5) = 2"
    by (simp_all add: diag_store_def)
  have ne: "(0::nat) \<noteq> 1" "(0::nat) \<noteq> 2" "(4::nat) \<noteq> 1" "(4::nat) \<noteq> 3" "(4::nat) \<noteq> 2"
    "(5::nat) \<noteq> 4" "(5::nat) \<noteq> 2"
    by simp_all
  obtain s1 s2 s3 where
    1: "mat_mult_diag diag_store 0 1 0 2 = Inr s1" and
    c: "\<forall>i<2. \<forall>j<2. data (mats s1 ! 0) ! i ! j =
              (\<Sum>k = 0..<2. data (mats diag_store ! 1) ! i ! k * vec_data (vecs diag_store ! 0) ! k *
                             data (mats diag_store ! 2) ! k ! j)" and
    2: "mat_mult diag_store 4 1 3 = Inr s2" "mat_mult s2 5 4 2 = Inr s3"
       "data (mats s3 ! 5) = data (mats s1 ! 0)"
    using mat_mult_diag_triple_product [OF v E sh ne] by blast
  have "data (mats s1 ! 0) ! 0 ! 0 = 52" "data (mats s1 ! 0) ! 0 ! 1 = 60"
    "data (mats s1 ! 0) ! 1 ! 0 = 114" "data (mats s1 ! 0) ! 1 ! 1 = 132"
    using c by (simp_all add: diag_store_def numeral_2_eq_2)
  then show ?thesis
    using 1 2 v E sh by simp
qed

text \<open>
  Claim C4 as stated fails when the destination is one of the factors, which the
  assertion of \<^verbatim>\<open>mat_mult_diag\<close> admits: the loops read \<open>B\<close> and \<open>D\<close> while they
  write \<open>A\<close>. With \<open>A = B = [[1, 2], [3, 4]]\<close>, \<open>C = [2, 3]\<close> and
  \<open>D = [[5, 6], [7, 8]]\<close> the call leaves \<open>[[42, 12600], [84, 25200]]\<close>, where the
  cell \<open>[0][0]\<close> of the product is \<open>1 * 2 * 5 + 2 * 3 * 7 = 52\<close>.
\<close>

theorem mat_mult_diag_alias_counterexample:
  "valid_mat diag_store 1 \<and> valid_mat diag_store 2 \<and> valid_vec diag_store 0 \<and>
   nrows (mats diag_store ! 1) = 2 \<and> ncols (mats diag_store ! 1) = 2 \<and>
   vec_size (vecs diag_store ! 0) = 2 \<and>
   nrows (mats diag_store ! 2) = 2 \<and> ncols (mats diag_store ! 2) = 2 \<and>
   mat_mult_diag diag_store 1 1 0 2 =
     Inr (diag_store\<lparr>mats := (mats diag_store)
            [1 := \<lparr>data = [[42, 12600], [84, 25200]], nrows = 2, ncols = 2\<rparr>]\<rparr>) \<and>
   data (mats diag_store ! 1) ! 0 ! 0 * vec_data (vecs diag_store ! 0) ! 0 *
     data (mats diag_store ! 2) ! 0 ! 0 +
   data (mats diag_store ! 1) ! 0 ! 1 * vec_data (vecs diag_store ! 0) ! 1 *
     data (mats diag_store ! 2) ! 1 ! 0 = 52"
  by (simp add: diag_store_def mat_mult_diag_def mat_deref_def vec_deref_def mat_get_def
      mat_set_def vec_get_def valid_mat_def valid_vec_def wf_mat_def wf_vec_def Let_def upt_rec)

section \<open>Inversion\<close>

subsection \<open>The two copy loops and the shape of a call\<close>

lemma length_concat_rect: "rect D r c \<Longrightarrow> length (concat D) = r * c"
proof (induction D arbitrary: r)
  case Nil
  then show ?case by (simp add: rect_def)
next
  case (Cons row D)
  then obtain r' where r: "r = Suc r'" by (cases r) (auto simp: rect_def)
  have "rect D r' c" using Cons.prems r by (auto simp: rect_def)
  moreover have "length row = c" using Cons.prems r by (auto simp: rect_def)
  ultimately show ?case using Cons.IH r by simp
qed

lemma flat_index_bound: "i < n \<Longrightarrow> j < (n::nat) \<Longrightarrow> j * n + i < n * n"
proof -
  assume a: "i < n" "j < n"
  have "j * n + i < j * n + n" using a by simp
  also have "\<dots> = Suc j * n" by simp
  also have "\<dots> \<le> n * n" using a by (metis Suc_leI mult_le_mono1)
  finally show ?thesis .
qed

lemma nth_concat_rect:
  "rect D r c \<Longrightarrow> i < r \<Longrightarrow> j < c \<Longrightarrow> concat D ! (i * c + j) = D ! i ! j"
proof (induction D arbitrary: r i)
  case Nil
  then show ?case by (simp add: rect_def)
next
  case (Cons row D)
  then obtain r' where r: "r = Suc r'" by (cases r) (auto simp: rect_def)
  have rd: "rect D r' c" using Cons.prems r by (auto simp: rect_def)
  have lr: "length row = c" using Cons.prems r by (auto simp: rect_def)
  show ?case
  proof (cases i)
    case 0
    then show ?thesis using lr Cons.prems by (simp add: nth_append)
  next
    case (Suc i')
    then have "i' < r'" using Cons.prems r by simp
    then have "concat D ! (i' * c + j) = D ! i' ! j"
      using Cons.IH [OF rd] Cons.prems by simp
    then show ?thesis using lr Suc by (simp add: nth_append)
  qed
qed

lemma copy_in:
  assumes v: "valid_mat s m" and sq: "nrows (mats s ! m) = n" "ncols (mats s ! m) = n"
  shows "for_each [0..<n] (\<lambda>i. for_each [0..<n] (\<lambda>j tmp.
            rbind (mat_get s m j i) (\<lambda>x. tmp_set tmp i j x)))
           (map (\<lambda>i. map (junk i) [0..<n]) [0..<n]) =
         Inr (data (transposed (mats s ! m)))"
proof -
  define S where "S = mats s ! m"
  define F where "F = (\<lambda>a b. data S ! b ! a)"
  define old where "old = map (\<lambda>i. map (junk i) [0..<n]) [0..<n]"
  have step: "rbind (mat_get s m j i) (\<lambda>x. tmp_set (filled (row_major i j) F old n n) i j x) =
              Inr (filled (row_major i (Suc j)) F old n n)" if ij: "i < n" "j < n" for i j
  proof -
    have "(filled (row_major i j) F old n n)[i := (filled (row_major i j) F old n n ! i)[j := data S ! j ! i]] =
          filled (row_major i (Suc j)) F old n n"
      unfolding filled_set [OF ij]
      by (rule filled_cong) (auto simp: row_major_def F_def)
    then show ?thesis
      using ij v sq by (simp add: mat_get_valid tmp_set_def S_def)
  qed
  have "for_each [0..<n] (\<lambda>i. for_each [0..<n] (\<lambda>j tmp.
            rbind (mat_get s m j i) (\<lambda>x. tmp_set tmp i j x))) ((\<lambda>D. D) old) =
        Inr ((\<lambda>D. D) (map (\<lambda>a. map (F a) [0..<n]) [0..<n]))"
    by (rule fill_row_major [where st = "\<lambda>D. D" and F = F and old = old])
       (use step in \<open>auto simp: old_def\<close>)
  then show ?thesis
    using sq by (simp add: old_def F_def transposed_def S_def)
qed

lemma copy_out:
  assumes v: "valid_mat s d" and sq: "nrows (mats s ! d) = n" "ncols (mats s ! d) = n"
    and len: "length res = n * n"
  shows "for_each [0..<n] (\<lambda>i. for_each [0..<n] (\<lambda>j s1.
            rbind (buf_get n res j i) (\<lambda>x. mat_set s1 d i j x))) s =
         Inr (upd_data s d (data (transposed (matrix_of_buffer n res))))"
proof -
  define F where "F = (\<lambda>a b. res ! (b * n + a))"
  define old where "old = data (mats s ! d)"
  have ld: "d < length (mats s)" using v by (simp add: valid_mat_def)
  have ro: "rect old n n" using v sq rect_data [of "mats s ! d"] by (simp add: valid_mat_def old_def)
  have step: "rbind (buf_get n res j i) (\<lambda>x. mat_set (upd_data s d (filled (row_major i j) F old n n)) d i j x) =
              Inr (upd_data s d (filled (row_major i (Suc j)) F old n n))" if ij: "i < n" "j < n" for i j
  proof -
    have "(filled (row_major i j) F old n n)[i := (filled (row_major i j) F old n n ! i)[j := res ! (j * n + i)]] =
          filled (row_major i (Suc j)) F old n n"
      unfolding filled_set [OF ij]
      by (rule filled_cong) (auto simp: row_major_def F_def)
    then show ?thesis
      using ij ld len flat_index_bound [OF ij] by (simp add: buf_get_def mat_set_upd)
  qed
  have "for_each [0..<n] (\<lambda>i. for_each [0..<n] (\<lambda>j s1.
            rbind (buf_get n res j i) (\<lambda>x. mat_set s1 d i j x))) (upd_data s d old) =
        Inr (upd_data s d (map (\<lambda>a. map (F a) [0..<n]) [0..<n]))"
    by (rule fill_row_major [where st = "upd_data s d" and F = F and old = old])
       (use step ro in \<open>auto simp: rect_def\<close>)
  moreover have "upd_data s d old = s"
    using ld by (simp add: old_def upd_data_same)
  moreover have "map (\<lambda>a. map (F a) [0..<n]) [0..<n] = data (transposed (matrix_of_buffer n res))"
    by (rule rect_eqI [of _ n _ n]) (simp_all add: transposed_def matrix_of_buffer_def F_def)
  ultimately show ?thesis by simp
qed

lemma mat_invert_unfold:
  assumes vm: "valid_mat s m" and vd: "valid_mat s d"
    and sh: "nrows (mats s ! m) = ncols (mats s ! m)" "nrows (mats s ! d) = ncols (mats s ! d)"
            "nrows (mats s ! m) = nrows (mats s ! d)"
    and pos: "0 < nrows (mats s ! m)"
  shows "mat_invert be junk s d m =
         (case dgetrf be (nrows (mats s ! m)) (concat (data (transposed (mats s ! m)))) of
            (lu, ipiv, info) \<Rightarrow>
              if info \<noteq> 0 then Inr (1, s)
              else case dgetri be (nrows (mats s ! m)) lu ipiv of (res, info2) \<Rightarrow>
                if info2 \<noteq> 0 then Inr (1, s)
                else rbind (for_each [0..<nrows (mats s ! m)] (\<lambda>i.
                              for_each [0..<nrows (mats s ! m)] (\<lambda>j s1.
                                rbind (buf_get (nrows (mats s ! m)) res j i) (\<lambda>x. mat_set s1 d i j x))) s)
                       (\<lambda>s2. Inr (0, s2)))"
proof -
  have lm: "m < length (mats s)" and ld: "d < length (mats s)"
    using vm vd by (simp_all add: valid_mat_def)
  show ?thesis
    using lm ld sh pos copy_in [OF vm refl, of junk] 
    by (simp add: mat_invert_def mat_deref_def Let_def)
qed

lemma mat_invert_exact:
  assumes vm: "valid_mat s m" and vd: "valid_mat s d"
    and sh: "nrows (mats s ! m) = ncols (mats s ! m)" "nrows (mats s ! d) = ncols (mats s ! d)"
            "nrows (mats s ! m) = nrows (mats s ! d)"
    and pos: "0 < nrows (mats s ! m)"
    and ip: "in_place be"
  shows "mat_invert be junk s d m = Inr (invert_spec be s d m)"
proof -
  define n where "n = nrows (mats s ! m)"
  define fed where "fed = concat (data (transposed (mats s ! m)))"
  obtain lu ipiv info where rf: "dgetrf be n fed = (lu, ipiv, info)"
    by (cases "dgetrf be n fed") auto
  obtain res info2 where ri: "dgetri be n lu ipiv = (res, info2)"
    by (cases "dgetri be n lu ipiv") auto
  have "rect (data (transposed (mats s ! m))) n n"
    using sh by (simp add: transposed_def n_def)
  then have lf: "length fed = n * n"
    by (simp add: fed_def length_concat_rect)
  have "length lu = n * n"
    using ip lf rf by (auto simp: in_place_def dest!: spec [where x = n] spec [where x = fed])
  then have lr: "length res = n * n"
    using ip ri by (auto simp: in_place_def dest!: spec [where x = n] spec [where x = lu] spec [where x = ipiv])
  have out: "for_each [0..<n] (\<lambda>i. for_each [0..<n] (\<lambda>j s1.
            rbind (buf_get n res j i) (\<lambda>x. mat_set s1 d i j x))) s =
         Inr (upd_data s d (data (transposed (matrix_of_buffer n res))))"
    using copy_out [OF vd _ _ lr] sh by (simp add: n_def)
  show ?thesis
    unfolding mat_invert_unfold [OF vm vd sh pos] invert_spec_def Let_def
    using rf ri out by (simp add: n_def [symmetric] fed_def [symmetric])
qed


lemma backend_input_read:
  assumes "wf_mat S" "nrows S = n" "ncols S = n" "i < n" "j < n"
  shows "colmajor_read n (concat (data (transposed S))) i j = data S ! i ! j"
proof -
  have "rect (data (transposed S)) n n"
    using assms by (simp add: transposed_def)
  then have "concat (data (transposed S)) ! (j * n + i) = data (transposed S) ! j ! i"
    using assms by (simp add: nth_concat_rect)
  then show ?thesis
    using assms by (simp add: colmajor_read_def transposed_def)
qed

lemma invert_spec_success_cells:
  assumes "invert_spec be s d m = (0, s')" "d < length (mats s)" "i < nrows (mats s ! m)" "j < nrows (mats s ! m)"
  shows "data (mats s' ! d) ! i ! j =
         colmajor_read (nrows (mats s ! m))
           (getri_result be (nrows (mats s ! m)) (concat (data (transposed (mats s ! m))))) i j"
  using assms
  by (auto simp: invert_spec_def Let_def getri_result_def colmajor_read_def transposed_def
      matrix_of_buffer_def split: prod.splits if_splits)

lemma invert_spec_cases:
  "invert_spec be s d m =
     (if getrf_info be (nrows (mats s ! m)) (concat (data (transposed (mats s ! m)))) \<noteq> 0 \<or>
         getri_info be (nrows (mats s ! m)) (concat (data (transposed (mats s ! m)))) \<noteq> 0
      then (1, s)
      else (0, upd_data s d (data (transposed (matrix_of_buffer (nrows (mats s ! m))
              (getri_result be (nrows (mats s ! m)) (concat (data (transposed (mats s ! m))))))))))"
  by (auto simp: invert_spec_def Let_def getrf_info_def getri_info_def getri_result_def
      split: prod.splits)

lemma inv_store_valid: "valid_mat inv_store 0" "valid_mat inv_store 1"
  by (simp_all add: valid_mat_def wf_mat_def inv_store_def)

lemma inv_store_shape:
  "nrows (mats inv_store ! 0) = ncols (mats inv_store ! 0)"
  "nrows (mats inv_store ! 1) = ncols (mats inv_store ! 1)"
  "nrows (mats inv_store ! 0) = nrows (mats inv_store ! 1)"
  "nrows (mats inv_store ! 1) = nrows (mats inv_store ! 0)"
  "0 < nrows (mats inv_store ! 0)" "0 < nrows (mats inv_store ! 1)"
  by (simp_all add: inv_store_def)

lemma sample_in_place: "in_place (sample_lapack :: real lapack)"
  by (simp add: in_place_def sample_lapack_def sample_getrf_def sample_getri_def Let_def)




subsection \<open>Refinement of the specification\<close>

text \<open>
  Claim C1. For every square matrix \<open>src\<close> of order \<open>n > 0\<close>, every destination of
  the same order (the same object as \<open>src\<close> or another) and every backend that works
  in place, \<^verbatim>\<open>mat_invert\<close> does what the specification says: it is equal to
  \<open>invert_spec\<close>, which feeds the backend the transpose of \<open>src\<close> and writes the
  transpose of the backend's result into \<open>dest\<close>. The buffer fed to the backend is the
  column-major image of \<open>src\<close>, and on success (status 0) \<open>dest[i][j]\<close> is entry
  \<open>(i, j)\<close> of the inverse that the backend left in its buffer in column-major order.
\<close>

theorem mat_invert_refines_spec:
  assumes "valid_mat s src" and "valid_mat s dest"
    and "nrows (mats s ! src) = ncols (mats s ! src)"
    and "nrows (mats s ! dest) = ncols (mats s ! dest)"
    and "nrows (mats s ! src) = nrows (mats s ! dest)"
    and "0 < nrows (mats s ! src)"
    and "in_place be"
  shows "mat_invert be junk s dest src = Inr (invert_spec be s dest src) \<and>
         (\<forall>i < nrows (mats s ! src). \<forall>j < nrows (mats s ! src).
            colmajor_read (nrows (mats s ! src)) (concat (data (transposed (mats s ! src)))) i j =
            data (mats s ! src) ! i ! j) \<and>
         (\<forall>s'. mat_invert be junk s dest src = Inr (0, s') \<longrightarrow>
            (\<forall>i < nrows (mats s ! src). \<forall>j < nrows (mats s ! src).
               data (mats s' ! dest) ! i ! j =
               colmajor_read (nrows (mats s ! src))
                 (getri_result be (nrows (mats s ! src))
                    (concat (data (transposed (mats s ! src))))) i j))"
proof -
  have ex: "mat_invert be junk s dest src = Inr (invert_spec be s dest src)"
    by (rule mat_invert_exact [OF assms])
  have wf: "wf_mat (mats s ! src)" and ld: "dest < length (mats s)"
    using assms(1,2) by (simp_all add: valid_mat_def)
  have rd: "\<forall>i < nrows (mats s ! src). \<forall>j < nrows (mats s ! src).
            colmajor_read (nrows (mats s ! src)) (concat (data (transposed (mats s ! src)))) i j =
            data (mats s ! src) ! i ! j"
    using backend_input_read [OF wf refl] assms(3) by simp
  show ?thesis
    using ex rd invert_spec_success_cells [OF _ ld] by simp
qed

theorem mat_invert_refines_spec_witness:
  "valid_mat inv_store 0 \<and> valid_mat inv_store 1 \<and>
   nrows (mats inv_store ! 0) = ncols (mats inv_store ! 0) \<and>
   nrows (mats inv_store ! 1) = ncols (mats inv_store ! 1) \<and>
   nrows (mats inv_store ! 0) = nrows (mats inv_store ! 1) \<and>
   0 < nrows (mats inv_store ! 0) \<and>
   in_place (sample_lapack :: real lapack) \<and>
   mat_invert sample_lapack (\<lambda>i j. 0) inv_store 1 0 =
     Inr (0, \<lparr>mats = [\<lparr>data = [[4, 7], [2, 6]], nrows = 2, ncols = 2\<rparr>,
                      \<lparr>data = [[3 / 5, - (7 / 10)], [- (1 / 5), 2 / 5]], nrows = 2, ncols = 2\<rparr>],
              vecs = []\<rparr>)"
proof -
  have "mat_invert sample_lapack (\<lambda>i j. 0) inv_store 1 0 = Inr (invert_spec sample_lapack inv_store 1 0)"
    using mat_invert_refines_spec [OF inv_store_valid(1,2) inv_store_shape(1,2,3,5) sample_in_place]
    by blast
  moreover have "invert_spec sample_lapack inv_store 1 0 =
     (0, \<lparr>mats = [\<lparr>data = [[4, 7], [2, 6]], nrows = 2, ncols = 2\<rparr>,
                      \<lparr>data = [[3 / 5, - (7 / 10)], [- (1 / 5), 2 / 5]], nrows = 2, ncols = 2\<rparr>],
              vecs = []\<rparr>)"
    by (simp add: invert_spec_def inv_store_def transposed_def matrix_of_buffer_def upd_data_def
        sample_lapack_def sample_getrf_def sample_getri_def Let_def upt_rec)
  ultimately show ?thesis
    using inv_store_valid inv_store_shape sample_in_place by simp
qed

subsection \<open>Failure\<close>




text \<open>
  Claim C9. For every square \<open>src\<close> and \<open>dest\<close> of the same order and every backend:
  when either backend call reports a non-zero status, \<^verbatim>\<open>mat_invert\<close> returns 1 and the
  store it returns is the store it got; and whenever it returns a non-zero value, the
  store is unchanged and one of the two calls did report a non-zero status. So
  \<open>dest\<close> is written only after both calls have succeeded.
\<close>

theorem mat_invert_failure_atomic:
  assumes "valid_mat s src" and "valid_mat s dest"
    and "nrows (mats s ! src) = ncols (mats s ! src)"
    and "nrows (mats s ! dest) = ncols (mats s ! dest)"
    and "nrows (mats s ! src) = nrows (mats s ! dest)"
    and "0 < nrows (mats s ! src)"
  shows "(getrf_info be (nrows (mats s ! src)) (concat (data (transposed (mats s ! src)))) \<noteq> 0 \<or>
          getri_info be (nrows (mats s ! src)) (concat (data (transposed (mats s ! src)))) \<noteq> 0
            \<longrightarrow> mat_invert be junk s dest src = Inr (1, s)) \<and>
         (\<forall>r s'. mat_invert be junk s dest src = Inr (r, s') \<and> r \<noteq> 0 \<longrightarrow>
            s' = s \<and>
            (getrf_info be (nrows (mats s ! src)) (concat (data (transposed (mats s ! src)))) \<noteq> 0 \<or>
             getri_info be (nrows (mats s ! src)) (concat (data (transposed (mats s ! src)))) \<noteq> 0))"
  unfolding mat_invert_unfold [OF assms]
  by (auto simp: getrf_info_def getri_info_def rbind_def split: prod.splits sum.splits)

theorem mat_invert_failure_atomic_witness:
  "valid_mat inv_store 1 \<and> valid_mat inv_store 0 \<and>
   nrows (mats inv_store ! 1) = ncols (mats inv_store ! 1) \<and>
   nrows (mats inv_store ! 0) = ncols (mats inv_store ! 0) \<and>
   nrows (mats inv_store ! 1) = nrows (mats inv_store ! 0) \<and>
   0 < nrows (mats inv_store ! 1) \<and>
   getrf_info (sample_lapack :: real lapack) (nrows (mats inv_store ! 1))
     (concat (data (transposed (mats inv_store ! 1)))) \<noteq> 0 \<and>
   mat_invert sample_lapack (\<lambda>i j. 0) inv_store 0 1 = Inr (1, inv_store)"
proof -
  have i: "getrf_info (sample_lapack :: real lapack) (nrows (mats inv_store ! 1))
     (concat (data (transposed (mats inv_store ! 1)))) \<noteq> 0"
    by (simp add: getrf_info_def sample_lapack_def sample_getrf_def inv_store_def transposed_def upt_rec)
  then have "mat_invert sample_lapack (\<lambda>i j. 0) inv_store 0 1 = Inr (1, inv_store)"
    using mat_invert_failure_atomic [OF inv_store_valid(2,1) inv_store_shape(2,1,4,6),
        of sample_lapack "\<lambda>i j. 0"]
    by blast
  then show ?thesis
    using i inv_store_valid inv_store_shape by simp
qed

subsection \<open>The source matrix\<close>

text \<open>
  Claim C10, as amended. For every square \<open>src\<close> and \<open>dest\<close> of the same order,
  \<^verbatim>\<open>mat_invert\<close> returns, and the object \<open>src\<close> is the same after the call as
  before whenever \<open>dest\<close> is another object than \<open>src\<close>, and also whenever the call
  fails.
\<close>

theorem mat_invert_source_unchanged:
  assumes "valid_mat s src" and "valid_mat s dest"
    and "nrows (mats s ! src) = ncols (mats s ! src)"
    and "nrows (mats s ! dest) = ncols (mats s ! dest)"
    and "nrows (mats s ! src) = nrows (mats s ! dest)"
    and "0 < nrows (mats s ! src)"
    and "in_place be"
  shows "\<exists>r s'. mat_invert be junk s dest src = Inr (r, s') \<and>
           (dest \<noteq> src \<longrightarrow> mats s' ! src = mats s ! src) \<and>
           (r \<noteq> 0 \<longrightarrow> mats s' ! src = mats s ! src)"
  using mat_invert_exact [OF assms]
  by (auto simp: invert_spec_cases)

theorem mat_invert_source_unchanged_witness:
  "valid_mat inv_store 0 \<and> valid_mat inv_store 1 \<and>
   nrows (mats inv_store ! 0) = ncols (mats inv_store ! 0) \<and>
   nrows (mats inv_store ! 1) = ncols (mats inv_store ! 1) \<and>
   nrows (mats inv_store ! 0) = nrows (mats inv_store ! 1) \<and>
   0 < nrows (mats inv_store ! 0) \<and>
   in_place (sample_lapack :: real lapack) \<and> (1::nat) \<noteq> 0 \<and>
   (\<exists>s'. mat_invert sample_lapack (\<lambda>i j. 0) inv_store 1 0 = Inr (0, s') \<and>
         mats s' ! 0 = mats inv_store ! 0)"
proof -
  obtain r s' where 1: "mat_invert sample_lapack (\<lambda>i j. 0) inv_store 1 0 = Inr (r, s')"
    and 2: "(1::nat) \<noteq> 0 \<longrightarrow> mats s' ! 0 = mats inv_store ! 0"
    using mat_invert_source_unchanged [OF inv_store_valid(1,2) inv_store_shape(1,2,3,5) sample_in_place,
        of "\<lambda>i j. 0"]
    by blast
  have "mat_invert sample_lapack (\<lambda>i j. 0) inv_store 1 0 = Inr (invert_spec sample_lapack inv_store 1 0)"
    by (rule mat_invert_exact [OF inv_store_valid(1,2) inv_store_shape(1,2,3,5) sample_in_place])
  moreover have "fst (invert_spec sample_lapack inv_store 1 0) = 0"
    by (simp add: invert_spec_def inv_store_def transposed_def 
        sample_lapack_def sample_getrf_def sample_getri_def Let_def upt_rec)
  ultimately have "r = 0" using 1 by (cases "invert_spec sample_lapack inv_store 1 0") simp
  then show ?thesis
    using 1 2 inv_store_valid inv_store_shape sample_in_place by simp
qed

text \<open>
  Claim C10 as stated fails when \<open>dest\<close> is \<open>src\<close> itself, which the assertion of
  \<^verbatim>\<open>mat_invert\<close> admits: the call \<^verbatim>\<open>mat_invert(M, M)\<close> on \<open>[[4, 7], [2, 6]]\<close>
  succeeds and overwrites the matrix with its inverse.
\<close>

theorem mat_invert_in_place_counterexample:
  "valid_mat inv_store 0 \<and>
   nrows (mats inv_store ! 0) = ncols (mats inv_store ! 0) \<and>
   data (mats inv_store ! 0) = [[4, 7], [2, 6]] \<and>
   mat_invert sample_lapack (\<lambda>i j. 0) inv_store 0 0 =
     Inr (0, \<lparr>mats = [\<lparr>data = [[3 / 5, - (7 / 10)], [- (1 / 5), 2 / 5]], nrows = 2, ncols = 2\<rparr>,
                      \<lparr>data = [[0, 0], [0, 0]], nrows = 2, ncols = 2\<rparr>],
              vecs = []\<rparr>)"
  by (simp add: mat_invert_def mat_deref_def mat_get_def mat_set_def tmp_set_def buf_get_def
      inv_store_def valid_mat_def wf_mat_def
      sample_lapack_def sample_getrf_def sample_getri_def Let_def upt_rec)

section \<open>Matrix-vector product\<close>

text \<open>Where \<^verbatim>\<open>mat_vec_mult\<close> is safe: when the vector is at least as long as the rows
  of the matrix (for one, when the matrix is square), and the destination is not the
  vector itself, the call computes the product.\<close>

lemma mat_vec_mult_exact:
  fixes s :: "'a::{zero,plus,times} store"
  assumes vm: "valid_mat s m" and vv: "valid_vec s v" and vp: "valid_vec s p"
    and ne: "p \<noteq> v"
    and sh: "nrows (mats s ! m) = vec_size (vecs s ! v)" "vec_size (vecs s ! v) = vec_size (vecs s ! p)"
    and wide: "ncols (mats s ! m) \<le> vec_size (vecs s ! v)"
  shows "mat_vec_mult s p m v =
         Inr (upd_vec s p (map (\<lambda>i. foldl (\<lambda>acc j. acc + data (mats s ! m) ! i ! j *
                                                      vec_data (vecs s ! v) ! j) 0
                                        [0..<ncols (mats s ! m)]) [0..<nrows (mats s ! m)]))"
proof -
  define M where "M = mats s ! m"
  define V where "V = vecs s ! v"
  define P where "P = vecs s ! p"
  define r where "r = nrows M"
  define c where "c = ncols M"
  define old where "old = vec_data P"
  define acc where "acc = (\<lambda>i k. foldl (\<lambda>acc j. acc + data M ! i ! j * vec_data V ! j) 0 [0..<k])"
  define G where "G = (\<lambda>i. map (\<lambda>a. if a < i then acc a c else old ! a) [0..<r])"
  define H where "H = (\<lambda>i k. map (\<lambda>a. if a < i then acc a c else if a = i then acc i k else old ! a) [0..<r])"
  note defs = M_def [symmetric] V_def [symmetric] P_def [symmetric]
  have lm: "m < length (mats s)" and lv: "v < length (vecs s)" and lp: "p < length (vecs s)"
    using vm vv vp by (simp_all add: valid_mat_def valid_vec_def)
  have lo: "length old = r"
    using vp sh by (simp add: valid_vec_def wf_vec_def old_def P_def r_def M_def)
  have lV: "length (vec_data V) = r"
    using vv sh by (simp add: valid_vec_def wf_vec_def V_def r_def M_def)
  have cr: "c \<le> r"
    using wide sh by (simp add: c_def r_def M_def)
  have vset: "vec_set (upd_vec s p X) p i x = Inr (upd_vec s p (X[i := x]))" if "i < length X" for X i x
    using that lp by (simp add: vec_set_def vec_deref_def upd_vec_def)
  have vgetp: "vec_get (upd_vec s p X) p i = Inr (X ! i)" if "i < length X" for X i
    using that lp by (simp add: vec_get_def vec_deref_def upd_vec_def)
  have vgetv: "vec_get (upd_vec s p X) v k = Inr (vec_data V ! k)" if "k < r" for X k
    using that lv lV ne by (simp add: vec_get_def vec_deref_def upd_vec_def V_def)
  have mget: "mat_get (upd_vec s p X) m i k = Inr (data M ! i ! k)" if "i < r" "k < c" for X i k
  proof -
    have "mat_get (upd_vec s p X) m i k = mat_get s m i k"
      by (simp add: mat_get_def mat_deref_def upd_vec_def)
    then show ?thesis
      using that mat_get_valid [OF vm, of i k] by (simp add: r_def c_def M_def)
  qed
  have inner: "for_each [0..<c] (\<lambda>j s2.
                rbind (vec_get s2 p i) (\<lambda>acc.
                rbind (mat_get s2 m i j) (\<lambda>x.
                rbind (vec_get s2 v j) (\<lambda>y.
                  vec_set s2 p i (acc + x * y))))) (upd_vec s p (H i 0)) =
               Inr (upd_vec s p (H i c))" if i: "i < r" for i
  proof (rule for_each_steps [where g = "\<lambda>k. upd_vec s p (H i k)"])
    fix k assume k: "0 \<le> k" "k < c"
    have "(H i k)[i := H i k ! i + data M ! i ! k * vec_data V ! k] = H i (Suc k)"
      using i by (auto simp: H_def acc_def list_eq_iff_nth_eq nth_list_update)
    then show "rbind (vec_get (upd_vec s p (H i k)) p i) (\<lambda>acc.
                rbind (mat_get (upd_vec s p (H i k)) m i k) (\<lambda>x.
                rbind (vec_get (upd_vec s p (H i k)) v k) (\<lambda>y.
                  vec_set (upd_vec s p (H i k)) p i (acc + x * y)))) =
               Inr (upd_vec s p (H i (Suc k)))"
      using i k cr by (simp add: vgetp vgetv mget vset H_def)
  qed simp
  have outer: "for_each [0..<r] (\<lambda>i s1.
           rbind (vec_set s1 p i 0)
             (for_each [0..<c] (\<lambda>j s2.
                rbind (vec_get s2 p i) (\<lambda>acc.
                rbind (mat_get s2 m i j) (\<lambda>x.
                rbind (vec_get s2 v j) (\<lambda>y.
                  vec_set s2 p i (acc + x * y))))))) (upd_vec s p (G 0)) =
        Inr (upd_vec s p (G r))"
  proof (rule for_each_steps [where g = "\<lambda>i. upd_vec s p (G i)"])
    fix i assume i: "0 \<le> i" "i < r"
    have 1: "(G i)[i := 0] = H i 0"
      using i by (auto simp: G_def H_def acc_def list_eq_iff_nth_eq nth_list_update)
    have 2: "H i c = G (Suc i)"
      using i by (auto simp: G_def H_def list_eq_iff_nth_eq less_Suc_eq)
    show "rbind (vec_set (upd_vec s p (G i)) p i 0)
             (for_each [0..<c] (\<lambda>j s2.
                rbind (vec_get s2 p i) (\<lambda>acc.
                rbind (mat_get s2 m i j) (\<lambda>x.
                rbind (vec_get s2 v j) (\<lambda>y.
                  vec_set s2 p i (acc + x * y)))))) =
          Inr (upd_vec s p (G (Suc i)))"
      using i inner [of i] 1 2 by (simp add: vset G_def)
  qed simp
  have G0: "upd_vec s p (G 0) = s"
  proof -
    have "G 0 = old" using lo by (auto simp: G_def list_eq_iff_nth_eq)
    then show ?thesis using lp by (simp add: upd_vec_def old_def P_def)
  qed
  have Gr: "G r = map (\<lambda>i. acc i c) [0..<r]"
    by (simp add: G_def)
  show ?thesis
    using lm lv lp sh outer G0 Gr
    by (simp add: mat_vec_mult_def mat_deref_def vec_deref_def defs
        r_def [symmetric] c_def [symmetric] acc_def)
qed

text \<open>Where it is not: under its own assertion, a matrix with at least one row and
  more columns than the vector has elements makes the first row's inner loop read
  past the end of the vector, whatever the contents and whether or not the
  destination is the vector itself.\<close>

lemma for_each_fails:
  assumes inv: "I s0"
    and ok: "\<And>i s. i < k \<Longrightarrow> I s \<Longrightarrow> \<exists>s'. body i s = Inr s' \<and> I s'"
    and bad: "\<And>s. I s \<Longrightarrow> body k s = Inl e"
    and k: "k < n"
  shows "for_each [0..<n] body s0 = Inl e"
proof -
  have pre: "\<exists>s'. for_each [0..<j] body s0 = Inr s' \<and> I s'" if "j \<le> k" for j
    using that
  proof (induction j)
    case 0
    then show ?case using inv by simp
  next
    case (Suc j)
    then obtain s1 where 1: "for_each [0..<j] body s0 = Inr s1" "I s1" by auto
    obtain s2 where 2: "body j s1 = Inr s2" "I s2"
      using ok [of j s1] Suc.prems 1 by auto
    show ?case using 1 2 by (simp add: for_each_append)
  qed
  obtain s1 where 1: "for_each [0..<k] body s0 = Inr s1" "I s1"
    using pre [of k] by auto
  have "[0..<n] = [0..<k] @ [k..<n]"
    using k upt_add_eq_append [of 0 k "n - k"] by simp
  moreover have "[k..<n] = k # [Suc k..<n]"
    using k by (rule upt_conv_Cons)
  ultimately have "[0..<n] = [0..<k] @ k # [Suc k..<n]" by simp
  then show ?thesis
    using 1 bad [of s1] by (simp add: for_each_append)
qed

lemma vec_set_same_shapes:
  assumes "same_shapes s s1" "p < length (vecs s)" "i < length (vec_data (vecs s ! p))"
  shows "\<exists>s2. vec_set s1 p i x = Inr s2 \<and> same_shapes s s2"
  using assms
  by (auto simp: same_shapes_def vec_set_def vec_deref_def nth_list_update)

lemma vec_get_same_shapes:
  assumes "same_shapes s s1" "p < length (vecs s)"
  shows "(\<exists>x. vec_get s1 p i = Inr x) \<longleftrightarrow> i < length (vec_data (vecs s ! p))"
    and "\<not> i < length (vec_data (vecs s ! p)) \<Longrightarrow> vec_get s1 p i = Inl OutOfBounds"
  using assms by (auto simp: same_shapes_def vec_get_def vec_deref_def)

lemma mat_get_same_shapes:
  assumes "same_shapes s s1"
  shows "mat_get s1 m i j = mat_get s m i j"
  using assms by (simp add: same_shapes_def mat_get_def mat_deref_def)

lemma mat_vec_mult_short_vector:
  fixes s :: "'a::{zero,plus,times} store"
  assumes vm: "valid_mat s m" and vv: "valid_vec s v" and vp: "valid_vec s p"
    and sh: "nrows (mats s ! m) = vec_size (vecs s ! v)" "vec_size (vecs s ! v) = vec_size (vecs s ! p)"
    and short: "vec_size (vecs s ! v) < ncols (mats s ! m)"
    and pos: "0 < nrows (mats s ! m)"
  shows "mat_vec_mult s p m v = Inl OutOfBounds"
proof -
  define n where "n = vec_size (vecs s ! v)"
  define c where "c = ncols (mats s ! m)"
  define inner where "inner = (\<lambda>j (s2 :: 'a store).
                rbind (vec_get s2 p 0) (\<lambda>acc.
                rbind (mat_get s2 m 0 j) (\<lambda>x.
                rbind (vec_get s2 v j) (\<lambda>y.
                  vec_set s2 p 0 (acc + x * y)))))"
  have lm: "m < length (mats s)" and lv: "v < length (vecs s)" and lp: "p < length (vecs s)"
    and dv: "length (vec_data (vecs s ! v)) = n" and dp: "length (vec_data (vecs s ! p)) = n"
    using vm vv vp sh by (simp_all add: valid_mat_def valid_vec_def wf_vec_def n_def)
  have n0: "0 < n" and nc: "n < c" and r: "nrows (mats s ! m) = n"
    using sh short pos by (simp_all add: n_def c_def)
  have mg: "mat_get s m 0 j = Inr (data (mats s ! m) ! 0 ! j)" if "j < c" for j
    using mat_get_valid [OF vm, of 0 j] that pos by (simp add: c_def)
  obtain s1 where s1: "vec_set s p 0 0 = Inr s1" "same_shapes s s1"
    using vec_set_same_shapes [of s s p 0 0] lp dp n0 by (auto simp: same_shapes_def)
  have ok: "\<exists>s'. inner j s2 = Inr s' \<and> same_shapes s s'" if j: "j < n" and ss: "same_shapes s s2" for j s2
  proof -
    obtain a where a: "vec_get s2 p 0 = Inr a"
      using vec_get_same_shapes(1) [OF ss lp, of 0] dp n0 by auto
    obtain y where y: "vec_get s2 v j = Inr y"
      using vec_get_same_shapes(1) [OF ss lv, of j] dv j by auto
    have x: "mat_get s2 m 0 j = Inr (data (mats s ! m) ! 0 ! j)"
      using mat_get_same_shapes [OF ss] mg [of j] j nc by simp
    show ?thesis
      using a x y vec_set_same_shapes [OF ss lp, of 0] dp n0
      by (simp add: inner_def)
  qed
  have bad: "inner n s2 = Inl OutOfBounds" if ss: "same_shapes s s2" for s2
  proof -
    obtain a where a: "vec_get s2 p 0 = Inr a"
      using vec_get_same_shapes(1) [OF ss lp, of 0] dp n0 by auto
    have x: "mat_get s2 m 0 n = Inr (data (mats s ! m) ! 0 ! n)"
      using mat_get_same_shapes [OF ss] mg [of n] nc by simp
    have "vec_get s2 v n = Inl OutOfBounds"
      using vec_get_same_shapes(2) [OF ss lv, of n] dv by simp
    then show ?thesis
      using a x by (simp add: inner_def)
  qed
  have "for_each [0..<c] inner s1 = Inl OutOfBounds"
    by (rule for_each_fails [where I = "same_shapes s" and k = n]) (use s1 ok bad nc in auto)
  moreover have "[0..<n] = 0 # [Suc 0..<n]"
    using n0 by (rule upt_conv_Cons)
  ultimately show ?thesis
    using lm lv lp sh s1 r
    by (simp add: mat_vec_mult_def mat_deref_def vec_deref_def n_def [symmetric]
        c_def [symmetric] inner_def)
qed

text \<open>
  Claim C6 fails on the code. The assertion of \<^verbatim>\<open>mat_vec_mult\<close> compares the size of
  \<open>v\<close> with the number of rows of \<open>m\<close>, and the inner loop reads \<open>v[j]\<close> for every
  column \<open>j\<close> of \<open>m\<close>. For the \<open>1 \<times> 2\<close> matrix \<open>[[1, 2]]\<close> and vectors \<open>v\<close>,
  \<open>prod\<close> of size 1 the assertion holds and the read of \<open>v[1]\<close> is outside the vector.
\<close>

theorem mat_vec_mult_out_of_bounds:
  "valid_mat ex_store 3 \<and> valid_vec ex_store 0 \<and> valid_vec ex_store 1 \<and>
   nrows (mats ex_store ! 3) = vec_size (vecs ex_store ! 0) \<and>
   vec_size (vecs ex_store ! 0) = vec_size (vecs ex_store ! 1) \<and>
   mat_vec_mult ex_store 1 3 0 = Inl OutOfBounds"
  by (simp add: ex_store_def mat_vec_mult_def mat_deref_def vec_deref_def mat_get_def vec_get_def
      vec_set_def valid_mat_def valid_vec_def wf_mat_def wf_vec_def upt_rec)

section \<open>Resizing\<close>

text \<open>Where \<^verbatim>\<open>mat_resize\<close> does what is expected: when the number of rows does not
  grow, the matrix gets the new shape and every cell inside both the old and the new
  shape keeps its value. When the number of rows grows, the call always reallocates
  through an indeterminate pointer.\<close>

lemma live_rows_map_Row: "live_rows (map Row xs) = Inr xs"
  by (induction xs) simp_all

lemma mat_resize_without_new_rows:
  assumes v: "valid_mat s m" and le: "nr \<le> nrows (mats s ! m)"
  shows "mat_resize junk s m nr nc =
         Inr (s\<lparr>mats := (mats s)[m := (mats s ! m)
                \<lparr>data := map (\<lambda>i. srealloc (junk i) (data (mats s ! m) ! i) nc) [0..<nr],
                 nrows := nr, ncols := nc\<rparr>]\<rparr>)"
proof -
  define M where "M = mats s ! m"
  define D where "D = data M"
  define r where "r = nrows M"
  define g where "g = (\<lambda>i. map (\<lambda>k. if nr \<le> k \<and> k < i then Freed else Row (D ! k)) [0..<r])"
  define h where "h = (\<lambda>i. map (\<lambda>k. Row (if k < i then srealloc (junk k) (D ! k) nc else D ! k)) [0..<nr])"
  have lm: "m < length (mats s)" and lD: "length D = r"
    using v by (simp_all add: valid_mat_def wf_mat_rows M_def D_def r_def)
  have le': "nr \<le> r" using le by (simp add: r_def M_def)
  have g0: "g nr = map Row D"
    using lD by (auto simp: g_def list_eq_iff_nth_eq)
  have free: "for_each [nr..<r] free_row (g nr) = Inr (g r)"
  proof (rule for_each_steps [where g = g])
    fix i assume i: "nr \<le> i" "i < r"
    have "(g i)[i := Freed] = g (Suc i)"
      using i by (auto simp: g_def list_eq_iff_nth_eq nth_list_update less_Suc_eq)
    then show "free_row i (g i) = Inr (g (Suc i))"
      using i by (simp add: free_row_def) (simp add: g_def)
  qed (rule le')
  have tab: "srealloc (\<lambda>_. Indeterminate) (g r) nr = h 0"
    using le' by (auto simp: srealloc_def g_def h_def list_eq_iff_nth_eq)
  have re: "for_each [0..<nr] (realloc_row junk nc) (h 0) = Inr (h nr)"
  proof (rule for_each_steps [where g = h])
    fix i assume i: "0 \<le> i" "i < nr"
    have "(h i)[i := Row (srealloc (junk i) (D ! i) nc)] = h (Suc i)"
      using i by (auto simp: h_def list_eq_iff_nth_eq nth_list_update less_Suc_eq)
    then show "realloc_row junk nc i (h i) = Inr (h (Suc i))"
      using i by (simp add: realloc_row_def) (simp add: h_def)
  qed simp
  have "h nr = map Row (map (\<lambda>i. srealloc (junk i) (D ! i) nc) [0..<nr])"
    by (simp add: h_def)
  then have live: "live_rows (h nr) = Inr (map (\<lambda>i. srealloc (junk i) (D ! i) nc) [0..<nr])"
    by (simp only: live_rows_map_Row)
  show ?thesis
    using lm free tab re live g0
    by (simp add: mat_resize_def mat_deref_def M_def [symmetric] D_def [symmetric] r_def [symmetric])
qed

lemma mat_resize_keeps_cells:
  assumes v: "valid_mat s m" and le: "nr \<le> nrows (mats s ! m)"
  shows "\<exists>s'. mat_resize junk s m nr nc = Inr s' \<and> valid_mat s' m \<and>
           nrows (mats s' ! m) = nr \<and> ncols (mats s' ! m) = nc \<and>
           (\<forall>i<nr. \<forall>j < min (ncols (mats s ! m)) nc.
              data (mats s' ! m) ! i ! j = data (mats s ! m) ! i ! j)"
proof -
  have lm: "m < length (mats s)" and wf: "wf_mat (mats s ! m)"
    using v by (simp_all add: valid_mat_def)
  have len: "length (data (mats s ! m) ! i) = ncols (mats s ! m)" if "i < nr" for i
    using wf le that by (simp add: wf_mat_cols)
  show ?thesis
    unfolding mat_resize_without_new_rows [OF v le]
    using lm len
    by (auto simp: valid_mat_def wf_mat_def list_all_length srealloc_def nth_append)
qed

lemma mat_resize_new_rows_fail:
  assumes v: "valid_mat s m" and gt: "nrows (mats s ! m) < nr"
  shows "mat_resize junk s m nr nc = Inl IndeterminatePointer"
proof -
  define M where "M = mats s ! m"
  define D where "D = data M"
  define r where "r = nrows M"
  define h where "h = (\<lambda>i. map (\<lambda>k. Row (if k < i then srealloc (junk k) (D ! k) nc else D ! k)) [0..<r]
                        @ replicate (nr - r) Indeterminate)"
  have lm: "m < length (mats s)" and lD: "length D = r"
    using v by (simp_all add: valid_mat_def wf_mat_rows M_def D_def r_def)
  have gt': "r < nr" using gt by (simp add: r_def M_def)
  have free: "for_each [nr..<r] free_row (map Row D) = Inr (map Row D)"
    using gt' by simp
  have tab: "srealloc (\<lambda>_. Indeterminate) (map Row D) nr = h 0"
    using gt' lD by (auto simp: srealloc_def h_def list_eq_iff_nth_eq nth_append)
  have first: "for_each [0..<r] (realloc_row junk nc) (h 0) = Inr (h r)"
  proof (rule for_each_steps [where g = h])
    fix i assume i: "0 \<le> i" "i < r"
    have "(h i)[i := Row (srealloc (junk i) (D ! i) nc)] = h (Suc i)"
      using i by (auto simp: h_def list_eq_iff_nth_eq nth_list_update nth_append less_Suc_eq)
    then show "realloc_row junk nc i (h i) = Inr (h (Suc i))"
      using i gt' by (simp add: realloc_row_def) (simp add: h_def nth_append)
  qed simp
  have bad: "realloc_row junk nc r (h r) = Inl IndeterminatePointer"
    using gt' by (simp add: realloc_row_def h_def nth_append)
  have "[0..<nr] = [0..<r] @ [r..<nr]"
    using gt' upt_add_eq_append [of 0 r "nr - r"] by simp
  moreover have "[r..<nr] = r # [Suc r..<nr]"
    using gt' by (rule upt_conv_Cons)
  ultimately have "[0..<nr] = [0..<r] @ r # [Suc r..<nr]"
    by simp
  then have "for_each [0..<nr] (realloc_row junk nc) (h 0) = Inl IndeterminatePointer"
    using first bad by (simp add: for_each_append)
  then show ?thesis
    using lm free tab
    by (simp add: mat_resize_def mat_deref_def M_def [symmetric] D_def [symmetric] r_def [symmetric])
qed

text \<open>
  Claim C8 fails on the code when the number of rows grows. The row table is
  reallocated to the new number of rows, which leaves its new slots indeterminate, and
  the loop then passes every slot, the new ones included, to \<^verbatim>\<open>srealloc\<close>. Resizing
  the \<open>1 \<times> 2\<close> matrix \<open>[[1, 2]]\<close> to \<open>2 \<times> 2\<close> reallocates through an
  indeterminate pointer, whatever the contents of fresh storage.
\<close>

theorem mat_resize_new_row_indeterminate:
  "valid_mat ex_store 3 \<and> nrows (mats ex_store ! 3) = 1 \<and> ncols (mats ex_store ! 3) = 2 \<and>
   mat_resize junk ex_store 3 2 2 = Inl IndeterminatePointer"
  by (simp add: ex_store_def mat_resize_def mat_deref_def free_row_def realloc_row_def srealloc_def
      valid_mat_def wf_mat_def upt_rec)

section \<open>Printing\<close>

lemma row_scan:
  assumes v: "valid_mat s m" and i: "i < nrows (mats s ! m)"
  shows "for_each [0..<ncols (mats s ! m)] (\<lambda>j st. rbind (mat_get s m i j) (\<lambda>x. Inr (f st x))) st0 =
         Inr (foldl f st0 (data (mats s ! m) ! i))"
proof -
  define row where "row = data (mats s ! m) ! i"
  have lr: "length row = ncols (mats s ! m)"
    using v i by (simp add: row_def valid_mat_def wf_mat_cols)
  have "for_each [0..<ncols (mats s ! m)] (\<lambda>j st. rbind (mat_get s m i j) (\<lambda>x. Inr (f st x)))
          (foldl f st0 (take 0 row)) =
        Inr (foldl f st0 (take (ncols (mats s ! m)) row))"
  proof (rule for_each_steps [where g = "\<lambda>j. foldl f st0 (take j row)"])
    fix j assume "0 \<le> j" "j < ncols (mats s ! m)"
    then show "rbind (mat_get s m i j) (\<lambda>x. Inr (f (foldl f st0 (take j row)) x)) =
               Inr (foldl f st0 (take (Suc j) row))"
      using v i lr by (simp add: mat_get_valid take_Suc_conv_app_nth row_def)
  qed simp
  then show ?thesis
    using lr by (simp add: row_def)
qed

lemma rows_scan:
  assumes "\<And>i st. i < length D \<Longrightarrow> body i st = Inr (h st (D ! i))"
  shows "for_each [0..<length D] body st0 = Inr (foldl h st0 D)"
proof -
  have "for_each [0..<length D] body (foldl h st0 (take 0 D)) = Inr (foldl h st0 (take (length D) D))"
    by (rule for_each_steps [where g = "\<lambda>i. foldl h st0 (take i D)"])
       (simp_all add: assms take_Suc_conv_app_nth)
  then show ?thesis by simp
qed

lemma foldl_min_step_less:
  "foldl min_step m0 xs < t \<longleftrightarrow> m0 < t \<or> (\<exists>x\<in>set xs. x \<noteq> 0 \<and> \<bar>x\<bar> < t)"
proof (induction xs arbitrary: m0)
  case Nil
  then show ?case by simp
next
  case (Cons x xs)
  show ?case
    unfolding foldl_Cons Cons.IH
    by (auto simp: min_step_def Let_def)
qed

lemma print_format_iff:
  "print_format M =
     (if \<exists>x\<in>set (concat (data M)). x \<noteq> 0 \<and> \<bar>x\<bar> < 1 / 1000 then ''%14.6e '' else ''%11.6f '')"
proof -
  have "(nonzero_abs M \<noteq> [] \<and> Min (set (nonzero_abs M)) < 1 / 1000) \<longleftrightarrow>
        (\<exists>x\<in>set (concat (data M)). x \<noteq> 0 \<and> \<bar>x\<bar> < 1 / 1000)"
  proof (cases "nonzero_abs M = []")
    case True
    then show ?thesis
      by (auto simp: nonzero_abs_def filter_empty_conv)
  next
    case False
    then have "Min (set (nonzero_abs M)) < 1 / 1000 \<longleftrightarrow> (\<exists>y\<in>set (nonzero_abs M). y < 1 / 1000)"
      by (intro Min_less_iff) simp_all
    then show ?thesis
      using False by (auto simp: nonzero_abs_def)
  qed
  then show ?thesis
    by (simp add: print_format_def)
qed

lemma foldl_foldl_concat: "foldl (foldl f) a xss = foldl f a (concat xss)"
  by (induction xss arbitrary: a) simp_all

lemma foldl_snoc_map: "foldl (\<lambda>F x. F @ [g x]) F0 xs = F0 @ map g xs"
  by (induction xs arbitrary: F0) simp_all

lemma foldl_append_concat: "foldl (\<lambda>F row. F @ k row) F0 D = F0 @ concat (map k D)"
  by (induction D arbitrary: F0) simp_all

text \<open>
  Claim C7. For every matrix \<open>M\<close>, \<^verbatim>\<open>mat_print\<close> appends to the stream the dump of
  \<open>M\<close> in one format for all elements: the scientific format \<^verbatim>\<open>%14.6e\<close> if the
  smallest non-zero absolute value among the elements of \<open>M\<close> is below \<open>1/1000\<close>, the
  fixed-point format \<^verbatim>\<open>%11.6f\<close> otherwise (also when no element is non-zero). The
  constant \<^verbatim>\<open>INFTY\<close> of misc.h is only assumed to be at least \<open>1/1000\<close>.
\<close>

theorem mat_print_single_format:
  assumes v: "valid_mat s m" and big: "1 / 1000 \<le> INFTY"
  shows "mat_print INFTY s m F =
         Inr (F @ printed (print_format (mats s ! m)) (mats s ! m))"
proof -
  define M where "M = mats s ! m"
  have lm: "m < length (mats s)" and lD: "length (data M) = nrows M"
    using v by (simp_all add: valid_mat_def wf_mat_rows M_def)
  have mn: "for_each [0..<nrows M] (\<lambda>i. for_each [0..<ncols M] (\<lambda>j mn.
              rbind (mat_get s m i j) (\<lambda>x.
                let val = \<bar>x\<bar> in Inr (if val \<noteq> 0 \<and> val < mn then val else mn)))) INFTY =
            Inr (foldl min_step INFTY (concat (data M)))"
  proof -
    have "for_each [0..<length (data M)] (\<lambda>i. for_each [0..<ncols M] (\<lambda>j mn.
              rbind (mat_get s m i j) (\<lambda>x.
                let val = \<bar>x\<bar> in Inr (if val \<noteq> 0 \<and> val < mn then val else mn)))) INFTY =
          Inr (foldl (foldl min_step) INFTY (data M))"
    proof (rule rows_scan)
      fix i st assume "i < length (data M)"
      then show "for_each [0..<ncols M] (\<lambda>j mn. rbind (mat_get s m i j) (\<lambda>x.
                   let val = \<bar>x\<bar> in Inr (if val \<noteq> 0 \<and> val < mn then val else mn))) st =
                 Inr (foldl min_step st (data M ! i))"
        using row_scan [OF v, of i min_step st] lD
        by (simp add: M_def min_step_def Let_def)
    qed
    then show ?thesis
      by (simp add: lD foldl_foldl_concat)
  qed
  have fmt: "(if foldl min_step INFTY (concat (data M)) < 1 / 1000 then ''%14.6e '' else ''%11.6f '') =
             print_format M"
  proof -
    have "foldl min_step INFTY (concat (data M)) < 1 / 1000 \<longleftrightarrow>
          (\<exists>x\<in>set (concat (data M)). x \<noteq> 0 \<and> \<bar>x\<bar> < 1 / 1000)"
      unfolding foldl_min_step_less using big by auto
    then show ?thesis
      by (simp only: print_format_iff)
  qed
  have out: "for_each [0..<nrows M] (\<lambda>i F1.
              rbind (for_each [0..<ncols M] (\<lambda>j F2.
                       rbind (mat_get s m i j) (\<lambda>x. Inr (F2 @ [Printf fmt x]))) F1)
                (\<lambda>F3. Inr (F3 @ [Newline]))) F =
             Inr (F @ printed fmt M)" for fmt
  proof -
    have "for_each [0..<length (data M)] (\<lambda>i F1.
              rbind (for_each [0..<ncols M] (\<lambda>j F2.
                       rbind (mat_get s m i j) (\<lambda>x. Inr (F2 @ [Printf fmt x]))) F1)
                (\<lambda>F3. Inr (F3 @ [Newline]))) F =
          Inr (foldl (\<lambda>F1 row. F1 @ (map (Printf fmt) row @ [Newline])) F (data M))"
    proof (rule rows_scan)
      fix i F1 assume "i < length (data M)"
      then show "rbind (for_each [0..<ncols M] (\<lambda>j F2.
                       rbind (mat_get s m i j) (\<lambda>x. Inr (F2 @ [Printf fmt x]))) F1)
                   (\<lambda>F3. Inr (F3 @ [Newline])) =
                 Inr (F1 @ (map (Printf fmt) (data M ! i) @ [Newline]))"
        using row_scan [OF v, of i "\<lambda>F2 x. F2 @ [Printf fmt x]" F1] lD
        by (simp add: M_def foldl_snoc_map)
    qed
    then show ?thesis
      by (simp add: lD foldl_append_concat printed_def)
  qed
  show ?thesis
    using lm mn out fmt
    by (simp add: mat_print_def mat_deref_def M_def [symmetric] Let_def)
qed

theorem mat_print_single_format_witness:
  "valid_mat print_store 0 \<and> valid_mat print_store 1 \<and> (1 / 1000 :: real) \<le> 999999999 \<and>
   mat_print 999999999 print_store 0 [] =
     Inr [Printf ''%14.6e '' (1 / 10000), Printf ''%14.6e '' 5, Newline,
          Printf ''%14.6e '' 0, Printf ''%14.6e '' (- 2), Newline] \<and>
   mat_print 999999999 print_store 1 [] =
     Inr [Printf ''%11.6f '' (1 / 100), Printf ''%11.6f '' 5, Newline,
          Printf ''%11.6f '' 0, Printf ''%11.6f '' (- 2), Newline]"
proof -
  have v: "valid_mat print_store 0" "valid_mat print_store 1"
    by (simp_all add: valid_mat_def wf_mat_def print_store_def)
  have b: "(1 / 1000 :: real) \<le> 999999999" by simp
  have f0: "print_format (mats print_store ! 0) = ''%14.6e ''"
    by (simp add: print_format_def nonzero_abs_def print_store_def)
  have f1: "print_format (mats print_store ! 1) = ''%11.6f ''"
    by (simp add: print_format_def nonzero_abs_def print_store_def)
  have "mat_print 999999999 print_store 0 [] =
        Inr ([] @ printed ''%14.6e '' (mats print_store ! 0))"
    using mat_print_single_format [OF v(1) b, of "[]"] by (simp only: f0)
  moreover have "mat_print 999999999 print_store 1 [] =
        Inr ([] @ printed ''%11.6f '' (mats print_store ! 1))"
    using mat_print_single_format [OF v(2) b, of "[]"] by (simp only: f1)
  ultimately show ?thesis
    using v b by (simp add: printed_def print_store_def)
qed

end
